theory Spec2Isabelle
  imports Complex_Main "HOL-Library.Multiset" "HOL-Library.Sublist"
begin

section \<open>Data model\<close>

text \<open>
  A board is a Python list of rows, each a list of unbounded integers; the value 1 marks
  an empty cell.  Nothing in \<^verbatim>\<open>game.py\<close> fixes the shape of the argument, so the
  model takes any list of lists and writes out every exception the source can raise on it.
\<close>

type_synonym board = "int list list"

datatype error = IndexError | ValueError | OverflowError | Inexact

text \<open>
  The first three are the exceptions of Python that the code can raise.  \<open>Inexact\<close> is
  no exception of the program: it is the signal of IEEE 754 for a result that is not a
  double and has to be rounded.  Python goes on with the rounded value; the model follows
  a double only while it is determined exactly, and stops with \<open>Inl Inexact\<close> where it is
  not (see the scorer).  No statement is made about a run that ends so.
\<close>

text \<open>
  The move labels are the strings of \<^verbatim>\<open>press_key\<close>'s key map.  \<^verbatim>\<open>None\<close> is the
  \<open>None\<close> of an \<open>option\<close>.
\<close>

datatype move = Up | Down | Left | Right | Undo

text \<open>
  A Python \<^verbatim>\<open>for\<close> over a range whose body may raise: the state is threaded through
  the indices in order and the first exception ends the loop.
\<close>

fun for_loop :: "'i list \<Rightarrow> ('i \<Rightarrow> 's \<Rightarrow> error + 's) \<Rightarrow> 's \<Rightarrow> error + 's" where
  "for_loop [] body s = Inr s"
| "for_loop (i # is) body s =
     (case body i s of Inl e \<Rightarrow> Inl e | Inr s' \<Rightarrow> for_loop is body s')"

section \<open>The transforms \<^verbatim>\<open>right\<close> and \<^verbatim>\<open>left\<close>\<close>

text \<open>
  Lines 20-23 and 41-44: every row is replaced by its cells other than 1, padded with 1
  to the old length on the left (\<^verbatim>\<open>right\<close>) or on the right (\<^verbatim>\<open>left\<close>).
\<close>

definition pack_right :: "int list \<Rightarrow> int list" where
  "pack_right row =
     (let new_row = filter (\<lambda>x. x \<noteq> 1) row
      in replicate (length row - length new_row) 1 @ new_row)"

definition pack_left :: "int list \<Rightarrow> int list" where
  "pack_left row =
     (let new_row = filter (\<lambda>x. x \<noteq> 1) row
      in new_row @ replicate (length row - length new_row) 1)"

text \<open>
  Lines 28-33, the body of the inner loop of \<^verbatim>\<open>right\<close> at row \<open>idx\<close> and position
  \<open>i\<close> (\<open>i \<ge> 1\<close>).  The reads \<^verbatim>\<open>board_copy[idx][i]\<close> and \<^verbatim>\<open>board_copy[idx][i-1]\<close>
  raise IndexError when the row is too short.
\<close>

definition right_step :: "nat \<Rightarrow> nat \<Rightarrow> board \<Rightarrow> error + board" where
  "right_step idx i board_copy =
     (if idx < length board_copy \<and> i < length (board_copy ! idx) then
        (let row = board_copy ! idx in
         if row ! i = row ! (i - 1) \<and> row ! i \<noteq> 1 then
           (let row1 = row[i := row ! i * 2] in
            if i = 1 then Inr (board_copy[idx := row1[0 := 1]])
            else Inr (board_copy[idx := [1] @ take (i - 1) row1 @ drop i row1]))
         else Inr board_copy)
      else Inl IndexError)"

text \<open>
  \<^verbatim>\<open>right\<close>: \<^verbatim>\<open>len(board[0])\<close> raises IndexError on the empty list;
  \<^verbatim>\<open>range(cols-1, 0, -1)\<close> is \<open>cols - 1, \<dots>, 1\<close>.
\<close>

definition right :: "board \<Rightarrow> error + board" where
  "right board =
     (case board of
        [] \<Rightarrow> Inl IndexError
      | row0 # _ \<Rightarrow>
          (let rows = length board; cols = length row0;
               board_copy = map pack_right board
           in for_loop [0..<rows]
                (\<lambda>idx. for_loop (rev [1..<cols]) (\<lambda>i. right_step idx i)) board_copy))"

text \<open>
  Lines 48-53, the body of the inner loop of \<^verbatim>\<open>left\<close>.  The test
  \<^verbatim>\<open>i == len(board_copy[idx]) - 2\<close> is on Python integers; \<^verbatim>\<open>board_copy[idx][-1]\<close>
  is the last cell.
\<close>

definition left_step :: "nat \<Rightarrow> nat \<Rightarrow> board \<Rightarrow> error + board" where
  "left_step idx i board_copy =
     (if idx < length board_copy \<and> i + 1 < length (board_copy ! idx) then
        (let row = board_copy ! idx in
         if row ! i = row ! (i + 1) \<and> row ! i \<noteq> 1 then
           (let row1 = row[i := row ! i * 2] in
            if int i = int (length row1) - 2
            then Inr (board_copy[idx := row1[length row1 - 1 := 1]])
            else Inr (board_copy[idx := take (i + 1) row1 @ drop (i + 2) row1 @ [1]]))
         else Inr board_copy)
      else Inl IndexError)"

definition left :: "board \<Rightarrow> error + board" where
  "left board =
     (case board of
        [] \<Rightarrow> Inl IndexError
      | row0 # _ \<Rightarrow>
          (let rows = length board; cols = length row0;
               board_copy = map pack_left board
           in for_loop [0..<rows]
                (\<lambda>idx. for_loop [0..<cols - 1] (\<lambda>i. left_step idx i)) board_copy))"

section \<open>The transform \<^verbatim>\<open>down\<close>\<close>

text \<open>
  \<^verbatim>\<open>down\<close> works on one column at a time, reading \<^verbatim>\<open>board_copy\<close> and writing
  \<^verbatim>\<open>down_board\<close> in place.  The counters \<^verbatim>\<open>rowc\<close> and \<^verbatim>\<open>rowd\<close> are Python
  integers that run down to \<open>-1\<close>; a cell is only read or written while its counter is
  at least 0 (\<^verbatim>\<open>rowd\<close> never falls below \<^verbatim>\<open>rowc\<close>), so \<open>nat\<close> gives the index.

  Lines 89-93: push the occupied cells of the column of \<^verbatim>\<open>board_copy\<close> to the bottom
  of \<^verbatim>\<open>down_board\<close>.
\<close>

function push_from :: "board \<Rightarrow> nat \<Rightarrow> int \<Rightarrow> int \<Rightarrow> board \<Rightarrow> board \<times> int" where
  "push_from board_copy col rowc rowd down_board =
     (if rowc \<ge> 0 then
        (if board_copy ! nat rowc ! col \<noteq> 1
         then push_from board_copy col (rowc - 1) (rowd - 1)
                (down_board[nat rowd := (down_board ! nat rowd)[col := board_copy ! nat rowc ! col]])
         else push_from board_copy col (rowc - 1) rowd down_board)
      else (down_board, rowd))"
  by pat_completeness auto
termination
  by (relation "measure (\<lambda>(board_copy, col, rowc, rowd, down_board). nat (rowc + 1))") auto

declare push_from.simps [simp del]

text \<open>Lines 96-99, the body of the merge loop at \<open>row\<close> (\<open>row \<ge> 1\<close>).\<close>

definition merge_step :: "nat \<Rightarrow> nat \<Rightarrow> board \<Rightarrow> board" where
  "merge_step col row down_board =
     (if down_board ! row ! col = down_board ! (row - 1) ! col \<and> down_board ! row ! col \<noteq> 1
      then (let db1 = down_board[row := (down_board ! row)[col := down_board ! row ! col * 2]]
            in db1[row - 1 := (db1 ! (row - 1))[col := 1]])
      else down_board)"

text \<open>Lines 104-108: the second push reads and writes \<^verbatim>\<open>down_board\<close> itself.\<close>

function push_within :: "nat \<Rightarrow> int \<Rightarrow> int \<Rightarrow> board \<Rightarrow> board \<times> int" where
  "push_within col rowc rowd down_board =
     (if rowc \<ge> 0 then
        (if down_board ! nat rowc ! col \<noteq> 1
         then push_within col (rowc - 1) (rowd - 1)
                (down_board[nat rowd := (down_board ! nat rowd)[col := down_board ! nat rowc ! col]])
         else push_within col (rowc - 1) rowd down_board)
      else (down_board, rowd))"
  by pat_completeness auto
termination
  by (relation "measure (\<lambda>(col, rowc, rowd, down_board). nat (rowc + 1))") auto

declare push_within.simps [simp del]

text \<open>Lines 111-113: the cells above the pushed ones are set to 1.\<close>

function fill_ones :: "nat \<Rightarrow> int \<Rightarrow> board \<Rightarrow> board" where
  "fill_ones col rowd down_board =
     (if rowd \<ge> 0
      then fill_ones col (rowd - 1) (down_board[nat rowd := (down_board ! nat rowd)[col := 1]])
      else down_board)"
  by pat_completeness auto
termination
  by (relation "measure (\<lambda>(col, rowd, down_board). nat (rowd + 1))") auto

declare fill_ones.simps [simp del]

text \<open>Lines 87-113, the body of the loop over the columns.\<close>

definition down_column :: "board \<Rightarrow> nat \<Rightarrow> nat \<Rightarrow> board \<Rightarrow> board" where
  "down_column board_copy rows col down_board =
     (let (db1, rowd1) = push_from board_copy col (int rows - 1) (int rows - 1) down_board;
          db2 = fold (merge_step col) (rev [1..<rows]) db1;
          (db3, rowd) = push_within col (int rows - 1) (int rows - 1) db2
      in fill_ones col rowd db3)"

text \<open>
  \<^verbatim>\<open>down\<close>: lines 72-81 raise ValueError on an empty board, an empty first row and a
  row whose length differs from the first one's; after that no index is out of range.
\<close>

definition down :: "board \<Rightarrow> error + board" where
  "down board =
     (if board = [] \<or> hd board = [] then Inl ValueError
      else
        (let rows = length board; cols = length (hd board) in
         if \<not> list_all (\<lambda>row. length row = cols) board then Inl ValueError
         else
           (let down_board = replicate rows (replicate cols 1)
            in Inr (fold (down_column board rows) [0..<cols] down_board))))"

section \<open>The scorer\<close>

text \<open>
  \<^verbatim>\<open>find_longest_path\<close>: rows 0 and 2 are reversed in a copy (IndexError when the board
  has fewer than three rows), the rows are concatenated and the whole list is reversed;
  \<^verbatim>\<open>board_list[0]\<close> raises IndexError when no cell is left.  The loop of lines 128-131
  collects cells while the next one is at most the one before.
\<close>

function path_loop :: "int list \<Rightarrow> nat \<Rightarrow> int \<Rightarrow> int list \<Rightarrow> int list" where
  "path_loop board_list ind last_cell longest_seq =
     (if ind < length board_list \<and> board_list ! ind \<le> last_cell
      then path_loop board_list (ind + 1) (board_list ! ind) (longest_seq @ [board_list ! ind])
      else longest_seq)"
  by pat_completeness auto
termination
  by (relation "measure (\<lambda>(board_list, ind, last_cell, longest_seq). length board_list - ind)") auto

declare path_loop.simps [simp del]

definition find_longest_path :: "board \<Rightarrow> error + int list" where
  "find_longest_path board =
     (if length board < 3 then Inl IndexError
      else
        (let board_copy0 = board[0 := rev (board ! 0)];
             board_copy = board_copy0[2 := rev (board_copy0 ! 2)];
             board_list = rev (concat board_copy)
         in if board_list = [] then Inl IndexError
            else Inr (path_loop board_list 0 (board_list ! 0) [])))"

text \<open>
  Doubles.  \<^verbatim>\<open>score\<close> starts from the integer 0 and adds to it the doubles
  \<^verbatim>\<open>pow(4, math.log2(i))\<close> and \<^verbatim>\<open>pow(3, math.log2(cell))\<close>.  An integer is a double
  when its odd part is below \<open>2 ^ 53\<close> (the significand has 53 bits) and it is below
  \<open>2 ^ 1024\<close>.
\<close>

function odd_part :: "int \<Rightarrow> int" where
  "odd_part n = (if n = 0 \<or> n mod 2 = 1 then n else odd_part (n div 2))"
  by pat_completeness auto
termination
  by (relation "measure (\<lambda>n. nat \<bar>n\<bar>)") auto

declare odd_part.simps [simp del]

definition is_double :: "int \<Rightarrow> bool" where
  "is_double n \<longleftrightarrow> \<bar>odd_part n\<bar> < 2 ^ 53 \<and> \<bar>n\<bar> < 2 ^ 1024"

text \<open>The number of halvings that take a positive integer to 1.\<close>

function ilog2 :: "int \<Rightarrow> nat" where
  "ilog2 c = (if c \<le> 1 then 0 else Suc (ilog2 (c div 2)))"
  by pat_completeness auto
termination
  by (relation "measure nat") auto

declare ilog2.simps [simp del]

text \<open>
  \<^verbatim>\<open>math.log2\<close> raises ValueError (math domain error) on an integer that is not
  positive.  The logarithm of a positive integer is a double exactly when the integer is
  a power of two, \<open>2 ^ k\<close>: then the result is the double \<open>k\<close>, given here as a
  natural number; the logarithm of any other integer is irrational and is rounded.
\<close>

definition log2 :: "int \<Rightarrow> error + nat" where
  "log2 x =
     (if x \<le> 0 then Inl ValueError
      else if x = 2 ^ ilog2 x then Inr (ilog2 x)
      else Inl Inexact)"

text \<open>
  \<^verbatim>\<open>pow(base, k)\<close> for the integer \<open>base\<close> (4 or 3 in the source) and a double
  \<open>k\<close> that is a natural number: Python raises OverflowError when the power is beyond
  the range of doubles, the result is the power when that is a double, and it is rounded
  otherwise.
\<close>

definition float_pow :: "int \<Rightarrow> nat \<Rightarrow> error + real" where
  "float_pow base k =
     (if 2 ^ 1024 \<le> base ^ k then Inl OverflowError
      else if is_double (base ^ k) then Inr (real_of_int (base ^ k))
      else Inl Inexact)"

text \<open>
  The sum of two doubles is exact when it is a double; the running score and the powers
  added to it are integers on every run the model follows.
\<close>

definition float_add :: "real \<Rightarrow> real \<Rightarrow> error + real" where
  "float_add x y =
     (if x + y = real_of_int \<lfloor>x + y\<rfloor> \<and> is_double \<lfloor>x + y\<rfloor> then Inr (x + y)
      else Inl Inexact)"

definition add_pow :: "int \<Rightarrow> int \<Rightarrow> real \<Rightarrow> error + real" where
  \<comment> \<open>\<^verbatim>\<open>score += pow(base, math.log2(c))\<close>, the running score being \<open>acc\<close>\<close>
  "add_pow base c acc =
     (case log2 c of
        Inl e \<Rightarrow> Inl e
      | Inr l \<Rightarrow>
          (case float_pow base l of
             Inl e \<Rightarrow> Inl e
           | Inr p \<Rightarrow> float_add acc p))"

definition score :: "board \<Rightarrow> error + real" where
  "score board =
     (case find_longest_path board of
        Inl e \<Rightarrow> Inl e
      | Inr seq \<Rightarrow>
          (case for_loop seq (add_pow 4) 0 of
             Inl e \<Rightarrow> Inl e
           | Inr score1 \<Rightarrow> for_loop board (\<lambda>row. for_loop row (add_pow 3)) score1))"

section \<open>The pivot check\<close>

text \<open>
  Python indexing \<^verbatim>\<open>xs[i]\<close>: a negative index counts from the end, an index out of
  range raises IndexError.
\<close>

definition py_get :: "'a list \<Rightarrow> int \<Rightarrow> error + 'a" where
  "py_get xs i =
     (if 0 \<le> i \<and> i < int (length xs) then Inr (xs ! nat i)
      else if i < 0 \<and> - int (length xs) \<le> i then Inr (xs ! nat (int (length xs) + i))
      else Inl IndexError)"

definition on_ok :: "error + 'a \<Rightarrow> ('a \<Rightarrow> error + 'b) \<Rightarrow> error + 'b" where
  \<comment> \<open>evaluate, then go on with the value; an exception ends the evaluation\<close>
  "on_ok r f = (case r of Inl e \<Rightarrow> Inl e | Inr v \<Rightarrow> f v)"

definition cell :: "board \<Rightarrow> int \<Rightarrow> int \<Rightarrow> error + int" where
  \<comment> \<open>\<^verbatim>\<open>board[row][i]\<close>\<close>
  "cell board row i = on_ok (py_get board row) (\<lambda>r. py_get r i)"

text \<open>What the body of a loop does with the enclosing function: go on, or return.\<close>

datatype 'a ctl = Continue | Return 'a

text \<open>
  Lines 159-165 and 167-173: the scan of one row over the positions \<open>is\<close>.  An empty
  cell is skipped; the first occupied cell decides between the move \<open>m\<close> and undo.  A
  row of empty cells ends the scan without a return.
\<close>

fun scan :: "board \<Rightarrow> int \<Rightarrow> int \<Rightarrow> move \<Rightarrow> int list \<Rightarrow> error + move option ctl" where
  "scan board_copy row expected m [] = Inr Continue"
| "scan board_copy row expected m (i # is) =
     on_ok (cell board_copy row i) (\<lambda>c.
       if c = 1 then scan board_copy row expected m is
       else if c = expected then Inr (Return (Some m))
       else Inr (Return (Some Undo)))"

text \<open>
  The guards of lines 158 and 166, with Python's short-circuit evaluation of
  \<^verbatim>\<open>and\<close> and \<^verbatim>\<open>or\<close>: an operand is read only when the ones before it did not
  decide.  \<open>rows = cols = 4\<close> are the module's globals.
\<close>

definition guard_even :: "board \<Rightarrow> int list \<Rightarrow> int \<Rightarrow> int \<Rightarrow> error + bool" where
  "guard_even board_copy board_list row bl_idx =
     (if (4 - row - 1) mod 2 = 0 then
        on_ok (py_get board_list bl_idx) (\<lambda>expected.
        on_ok (cell board_copy row (4 - 1)) (\<lambda>corner.
          if expected \<noteq> corner then
            (if bl_idx = 0 then Inr True
             else on_ok (cell board_copy (row + 1) (4 - 1)) (\<lambda>below.
                  on_ok (py_get board_list (bl_idx - 1)) (\<lambda>prev. Inr (below = prev))))
          else Inr False))
      else Inr False)"

definition guard_odd :: "board \<Rightarrow> int list \<Rightarrow> int \<Rightarrow> int \<Rightarrow> error + bool" where
  "guard_odd board_copy board_list row bl_idx =
     (if (4 - row - 1) mod 2 = 1 then
        on_ok (py_get board_list bl_idx) (\<lambda>expected.
        on_ok (cell board_copy row 0) (\<lambda>corner.
          if expected \<noteq> corner then
            on_ok (cell board_copy (row + 1) 0) (\<lambda>below.
            on_ok (py_get board_list (bl_idx - 1)) (\<lambda>prev. Inr (below = prev)))
          else Inr False))
      else Inr False)"

text \<open>Lines 155-173, the body of the loop over the rows.\<close>

definition pivot_row :: "board \<Rightarrow> int list \<Rightarrow> int \<Rightarrow> error + move option ctl" where
  "pivot_row board_copy board_list row =
     (let bl_idx = (4 - row - 1) * 4 in
      on_ok (py_get board_list bl_idx) (\<lambda>expected.
        if expected \<le> 64 then Inr (Return None)
        else
          on_ok (guard_even board_copy board_list row bl_idx) (\<lambda>fire_even.
          on_ok (if fire_even then scan board_copy row expected Right [3, 2, 1, 0]
                 else Inr Continue) (\<lambda>r.
            case r of
              Return m \<Rightarrow> Inr (Return m)
            | Continue \<Rightarrow>
                on_ok (guard_odd board_copy board_list row bl_idx) (\<lambda>fire_odd.
                  if fire_odd then scan board_copy row expected Left [0, 1, 2, 3]
                  else Inr Continue)))))"

fun pivot_rows :: "board \<Rightarrow> int list \<Rightarrow> int list \<Rightarrow> error + move option" where
  "pivot_rows board_copy board_list [] = Inr None"
| "pivot_rows board_copy board_list (row # rest) =
     on_ok (pivot_row board_copy board_list row) (\<lambda>r.
       case r of
         Return m \<Rightarrow> Inr m
       | Continue \<Rightarrow> pivot_rows board_copy board_list rest)"

text \<open>
  \<^verbatim>\<open>check_pivots\<close>: the cells in descending order (\<^verbatim>\<open>sort(reverse=True)\<close>), then the
  rows 3, 2, 1, 0.
\<close>

definition check_pivots :: "board \<Rightarrow> error + move option" where
  "check_pivots board =
     (let board_list = rev (sort (concat board))
      in pivot_rows board board_list [3, 2, 1, 0])"

section \<open>The lookahead search\<close>

text \<open>
  Lines 195-208: the three successors of one pair, \<^verbatim>\<open>down\<close> first, then \<^verbatim>\<open>left\<close>, then
  \<^verbatim>\<open>right\<close>.  A pair that has a label hands it on; a pair without one labels each
  successor with its own move.
\<close>

definition expand :: "board \<times> move option \<Rightarrow> error + (board \<times> move option) list" where
  "expand bm =
     (case bm of (b, move) \<Rightarrow>
        on_ok (down b) (\<lambda>next_down.
        on_ok (left b) (\<lambda>next_left.
        on_ok (right b) (\<lambda>next_right.
          Inr (case move of
                 Some m \<Rightarrow> [(next_down, Some m), (next_left, Some m), (next_right, Some m)]
               | None \<Rightarrow>
                   [(next_down, Some Down), (next_left, Some Left), (next_right, Some Right)])))))"

definition expand_level ::
    "(board \<times> move option) list \<Rightarrow> error + (board \<times> move option) list" where
  \<comment> \<open>lines 192-209: one level, in the order of the current pairs\<close>
  "expand_level current_boards =
     for_loop current_boards
       (\<lambda>bm next_boards. on_ok (expand bm) (\<lambda>cs. Inr (next_boards @ cs))) []"

definition possible_boards :: "board \<Rightarrow> error + (board \<times> move option) list" where
  \<comment> \<open>\<^verbatim>\<open>lookahead = 3\<close> levels from the single pair \<^verbatim>\<open>(board, None)\<close>\<close>
  "possible_boards board =
     for_loop [0 ..< 3] (\<lambda>_ current_boards. expand_level current_boards) [(board, None)]"

definition scored_boards ::
    "(board \<times> move option) list \<Rightarrow> error + (real \<times> move option) list" where
  \<comment> \<open>lines 211-222\<close>
  "scored_boards leaves =
     for_loop leaves
       (\<lambda>bm scored. case bm of (b, move) \<Rightarrow>
          on_ok (score b) (\<lambda>s. Inr (scored @ [(s, move)]))) []"

text \<open>
  \<^verbatim>\<open>next_move\<close>.  Python's \<^verbatim>\<open>sort(key=..., reverse=True)\<close> is stable: pairs with equal
  scores keep their order, which is what \<open>sort_key\<close> on the negated score does.  The
  unused \<^verbatim>\<open>get_max_cell(board)\<close> of line 190 has no effect and is left out.
\<close>

definition next_move :: "board \<Rightarrow> error + move option" where
  "next_move board =
     on_ok (check_pivots board) (\<lambda>priority_move.
       case priority_move of
         Some m \<Rightarrow> Inr (Some m)
       | None \<Rightarrow>
           on_ok (possible_boards board) (\<lambda>leaves.
           on_ok (scored_boards leaves) (\<lambda>scored.
             (let sorted_boards = sort_key (\<lambda>x. - fst x) scored
              in if length sorted_boards = 0 then Inr (Some Undo)
                 else Inr (snd (sorted_boards ! 0))))))"

section \<open>The orchestrator\<close>

text \<open>
  Lines 269-278: the loop runs while the candidate board equals the input.  It has no
  bound in the source, so it is a partial function: \<open>None\<close> is the loop that never ends.
  The result pairs the board returned with the move handed to \<^verbatim>\<open>press_key\<close>.
\<close>

partial_function (option) rotate ::
    "board \<Rightarrow> move option \<Rightarrow> board \<Rightarrow> (error + board \<times> move option) option" where
  "rotate board move upcoming_board =
     (if board = upcoming_board then
        (if move = Some Down then
           (case left board of
              Inl e \<Rightarrow> Some (Inl e)
            | Inr b \<Rightarrow> rotate board (Some Left) b)
         else if move = Some Left then
           (case right board of
              Inl e \<Rightarrow> Some (Inl e)
            | Inr b \<Rightarrow> rotate board (Some Right) b)
         else
           (case down board of
              Inl e \<Rightarrow> Some (Inl e)
            | Inr b \<Rightarrow> rotate board (Some Down) b))
      else Some (Inr (upcoming_board, move)))"

definition first_board :: "board \<Rightarrow> move option \<Rightarrow> error + board" where
  \<comment> \<open>lines 256-266: \<^verbatim>\<open>upcoming_board\<close> before the loop\<close>
  "first_board board move =
     (if move = Some Down then down board
      else if move = Some Left then left board
      else if move = Some Right then right board
      else Inr [])"

definition next_board :: "board \<Rightarrow> (error + board \<times> move option) option" where
  "next_board board =
     (case next_move board of
        Inl e \<Rightarrow> Some (Inl e)
      | Inr move \<Rightarrow>
          if move = Some Undo then Some (Inr (replicate 4 (replicate 4 1), Some Undo))
          else
            (case first_board board move of
               Inl e \<Rightarrow> Some (Inl e)
             | Inr upcoming_board \<Rightarrow> rotate board move upcoming_board))"

section \<open>The perception boundary\<close>


section \<open>The transform rule of the specification\<close>

text \<open>
  The specification describes one rule for all directions, on a line of cells read from
  the target edge inwards: compact, merge once per pair, compact again.  These definitions
  follow its words; the theorems below compare them with the code.

  Compact: the occupied cells in order, then the sentinels.
\<close>

definition spec_compact :: "int list \<Rightarrow> int list" where
  "spec_compact xs = filter (\<lambda>x. x \<noteq> 1) xs @ replicate (length (filter (\<lambda>x. x = 1) xs)) 1"

text \<open>
  Merge once per pair, from the target edge inwards: two adjacent equal occupied cells
  become their double and a sentinel, and the scan goes on behind the pair, so a cell
  produced by a merge takes part in no further merge.
\<close>

fun spec_merge :: "int list \<Rightarrow> int list" where
  "spec_merge (x # y # zs) =
     (if x = y \<and> x \<noteq> 1 then (x * 2) # 1 # spec_merge zs else x # spec_merge (y # zs))"
| "spec_merge xs = xs"

definition spec_line :: "int list \<Rightarrow> int list" where
  "spec_line xs = spec_compact (spec_merge (spec_compact xs))"

text \<open>
  The target edge of \<^verbatim>\<open>left\<close> is the start of a row, that of \<^verbatim>\<open>right\<close> its end and
  that of \<^verbatim>\<open>down\<close> the end of a column.
\<close>

definition spec_left :: "board \<Rightarrow> board" where
  "spec_left b = map spec_line b"

definition spec_right :: "board \<Rightarrow> board" where
  "spec_right b = map (\<lambda>row. rev (spec_line (rev row))) b"

definition spec_down :: "board \<Rightarrow> board" where
  "spec_down b = transpose (map (\<lambda>c. rev (spec_line (rev c))) (transpose b))"

text \<open>A well-formed board: four rows of four cells.\<close>

definition wf4 :: "board \<Rightarrow> bool" where
  "wf4 b \<longleftrightarrow> length b = 4 \<and> list_all (\<lambda>row. length row = 4) b"

section \<open>Rows and columns of the code's loops\<close>

text \<open>
  The inner loops of \<^verbatim>\<open>left\<close> and \<^verbatim>\<open>right\<close> touch one row only; these are their
  bodies on that row.
\<close>

definition left_cell :: "nat \<Rightarrow> int list \<Rightarrow> error + int list" where
  "left_cell i row =
     (if i + 1 < length row then
         (if row ! i = row ! (i + 1) \<and> row ! i \<noteq> 1 then
           (let row1 = row[i := row ! i * 2] in
            if int i = int (length row1) - 2
            then Inr (row1[length row1 - 1 := 1])
            else Inr (take (i + 1) row1 @ drop (i + 2) row1 @ [1]))
         else Inr row)
      else Inl IndexError)"

definition right_cell :: "nat \<Rightarrow> int list \<Rightarrow> error + int list" where
  "right_cell i row =
     (if i < length row then
         (if row ! i = row ! (i - 1) \<and> row ! i \<noteq> 1 then
           (let row1 = row[i := row ! i * 2] in
            if i = 1 then Inr (row1[0 := 1])
            else Inr ([1] @ take (i - 1) row1 @ drop i row1))
         else Inr row)
      else Inl IndexError)"

text \<open>
  A column of a board, the board with one column replaced, and the part of the body of
  the loop of \<^verbatim>\<open>down\<close> that follows the first push, for four rows.
\<close>

definition col_of :: "nat \<Rightarrow> board \<Rightarrow> int list" where
  "col_of c b = map (\<lambda>row. row ! c) b"

definition put_col :: "nat \<Rightarrow> int list \<Rightarrow> board \<Rightarrow> board" where
  "put_col c vs b = map (\<lambda>(v, row). row[c := v]) (zip vs b)"

definition down_rest :: "nat \<Rightarrow> board \<Rightarrow> board" where
  "down_rest c db1 =
     (let db2 = fold (merge_step c) [3, 2, 1] db1;
          (db3, rowd) = push_within c 3 3 db2
      in fill_ones c rowd db3)"

section \<open>Occupied cells and tile values\<close>

text \<open>The multiset of the occupied (non-sentinel) cells of a line and of a board.\<close>

definition occupied_line :: "int list \<Rightarrow> int multiset" where
  "occupied_line xs = mset (filter (\<lambda>x. x \<noteq> 1) xs)"

definition occupied :: "board \<Rightarrow> int multiset" where
  "occupied b = occupied_line (concat b)"

text \<open>
  Conservation as the specification words it for one call: the multiset stays the same, or
  it loses two equal elements and gains their sum.
\<close>

definition conserved_once :: "int multiset \<Rightarrow> int multiset \<Rightarrow> bool" where
  "conserved_once M M' \<longleftrightarrow>
     M' = M \<or> (\<exists>v N. M = N + {#v, v#} \<and> M' = N + {#v + v#})"

text \<open>
  Any number of such merges, one after the other: what a single call of a transform can
  do, since every row or column merges on its own.
\<close>

inductive merges :: "int multiset \<Rightarrow> int multiset \<Rightarrow> bool" where
  merges_none: "merges M M"
| merges_more: "merges M (N + {#v, v#}) \<Longrightarrow> merges M (N + {#v + v#})"

text \<open>
  The values a cell may hold: the sentinel 1 or a power of two from 2 on.  \<open>pow2\<close>
  halves its argument down to 1.
\<close>

function pow2 :: "int \<Rightarrow> bool" where
  "pow2 c = (if c \<le> 1 then c = 1 else c mod 2 = 0 \<and> pow2 (c div 2))"
  by pat_completeness auto
termination
  by (relation "measure nat") auto

declare pow2.simps [simp del]

definition tile :: "int \<Rightarrow> bool" where
  "tile c \<longleftrightarrow> c = 1 \<or> (2 \<le> c \<and> pow2 c)"

definition tiles :: "board \<Rightarrow> bool" where
  "tiles b \<longleftrightarrow> list_all (list_all tile) b"

text \<open>Boards used as concrete inputs below.\<close>

definition chain_board :: board where
  "chain_board = [[2, 2, 2, 2], [2, 2, 4, 8], [1, 1, 1, 1], [4, 1, 4, 8]]"

definition twos_board :: board where
  "twos_board = [[2, 2, 2, 2], [1, 1, 1, 1], [1, 1, 1, 1], [1, 1, 1, 1]]"

section \<open>The pivot rule in the words of the specification\<close>

text \<open>
  The cells in descending order; the value expected at the rank of row \<open>row\<close> (rank 0 is
  the bottom row) and the boundary column of that row: the right edge for an even rank, the
  left edge for an odd one.
\<close>

definition sorted_desc :: "board \<Rightarrow> int list" where
  "sorted_desc b = rev (sort (concat b))"

definition expected :: "board \<Rightarrow> nat \<Rightarrow> int" where
  "expected b row = sorted_desc b ! ((3 - row) * 4)"

definition boundary :: "nat \<Rightarrow> nat" where
  "boundary row = (if even (3 - row) then 3 else 0)"

text \<open>
  The check fires at a row: the value at stake exceeds 64, the expected value is absent
  from the boundary cell, and the tile of the rank before is seated (the cell below the
  boundary cell holds the value before the expected one; the bottom row has no rank
  before it).
\<close>

definition fires :: "board \<Rightarrow> nat \<Rightarrow> bool" where
  "fires b row \<longleftrightarrow>
     64 < expected b row
     \<and> b ! row ! boundary row \<noteq> expected b row
     \<and> (row = 3 \<or> b ! (row + 1) ! boundary row = sorted_desc b ! ((3 - row) * 4 - 1))"

text \<open>
  The move of a row's parity, the row read from its boundary cell, and its first occupied
  cell.
\<close>

definition pivot_move :: "nat \<Rightarrow> move" where
  "pivot_move row = (if even (3 - row) then Right else Left)"

definition from_boundary :: "board \<Rightarrow> nat \<Rightarrow> int list" where
  "from_boundary b row = (if even (3 - row) then rev (b ! row) else b ! row)"

definition first_occupied :: "int list \<Rightarrow> int option" where
  "first_occupied xs = (case filter (\<lambda>x. x \<noteq> 1) xs of [] \<Rightarrow> None | c # _ \<Rightarrow> Some c)"

text \<open>What one row and the loop over the rows come to, used to unfold the code.\<close>

definition scan_result :: "int list \<Rightarrow> int \<Rightarrow> move \<Rightarrow> move option ctl" where
  "scan_result xs e m =
     (case first_occupied xs of
        None \<Rightarrow> Continue
      | Some c \<Rightarrow> Return (Some (if c = e then m else Undo)))"

definition row_result :: "board \<Rightarrow> int list \<Rightarrow> nat \<Rightarrow> move option ctl" where
  "row_result b bl row =
     (let e = bl ! ((3 - row) * 4) in
      if e \<le> 64 then Return None
      else if b ! row ! boundary row \<noteq> e
              \<and> (row = 3 \<or> b ! (row + 1) ! boundary row = bl ! ((3 - row) * 4 - 1))
           then scan_result (from_boundary b row) e (pivot_move row)
           else Continue)"

fun first_return :: "move option ctl list \<Rightarrow> move option" where
  "first_return [] = None"
| "first_return (Continue # rs) = first_return rs"
| "first_return (Return m # rs) = m"

text \<open>Boards used as concrete inputs for the pivot check.\<close>

definition pivot_board :: board where
  "pivot_board = [[2, 2, 2, 1], [4, 16, 2, 2], [8, 64, 32, 8], [128, 1, 1, 2]]"

definition seated_board :: board where
  "seated_board = [[2, 2, 2, 2], [4, 16, 2, 2], [1, 128, 4, 2], [128, 256, 512, 1024]]"

section \<open>The scoring rule in the words of the specification\<close>

text \<open>
  The traversal: from the build corner (bottom right) along the bottom row to the left,
  back along the row above, and so on; consecutive cells are neighbours on the grid.
\<close>

definition snake :: "board \<Rightarrow> int list" where
  "snake b = rev (b ! 3) @ b ! 2 @ rev (b ! 1) @ b ! 0"

text \<open>The longest initial run in which no cell exceeds the one before.\<close>

fun mono_prefix :: "int list \<Rightarrow> int list" where
  "mono_prefix (x # y # ys) = (if y \<le> x then x # mono_prefix (y # ys) else [x])"
| "mono_prefix xs = xs"

text \<open>
  Boards all of whose cells are at least 1; boards as the game and the perception
  boundary produce them, every cell a tile value or not positive (an unmatched cell is
  \<open>-1\<close>); boards that hold no cell above \<open>2 ^ 24\<close>.  On the latter every power
  and every partial sum of the score is an integer of at most \<open>2 ^ 53\<close>, hence a
  double.
\<close>

definition positive :: "board \<Rightarrow> bool" where
  "positive b \<longleftrightarrow> list_all (list_all (\<lambda>c. 1 \<le> c)) b"

definition perceived :: "board \<Rightarrow> bool" where
  "perceived b \<longleftrightarrow> list_all (list_all (\<lambda>c. c \<le> 0 \<or> tile c)) b"

definition bounded_cells :: "board \<Rightarrow> bool" where
  "bounded_cells b \<longleftrightarrow> list_all (list_all (\<lambda>c. c \<le> 2 ^ 24)) b"

text \<open>
  The score the rule assigns: for a cell \<open>2 ^ k\<close> the terms \<open>4 ^ log2 v\<close> and
  \<open>3 ^ log2 v\<close> are \<open>4 ^ k\<close> and \<open>3 ^ k\<close>.
\<close>

definition score_value :: "board \<Rightarrow> int" where
  "score_value b =
     (\<Sum>x\<leftarrow>mono_prefix (snake b). 4 ^ ilog2 x) + (\<Sum>x\<leftarrow>concat b. 3 ^ ilog2 x)"

text \<open>The loop of \<^verbatim>\<open>find_longest_path\<close> as a function of the remaining cells.\<close>

fun run :: "int \<Rightarrow> int list \<Rightarrow> int list" where
  "run l [] = []"
| "run l (x # xs) = (if x \<le> l then x # run x xs else [])"




section \<open>The lookahead in the words of the specification\<close>

text \<open>
  The three boards one ply below a board, in the order in which \<^verbatim>\<open>next_move\<close>
  generates them: down, left, right.
\<close>

definition children :: "board \<Rightarrow> board list" where
  "children b = [spec_down b, spec_left b, spec_right b]"

text \<open>
  The 27 leaves three plies below a board, in generation order, each with the label of
  its first ply: the nine leaves below the down-child, then those below the left-child,
  then those below the right-child, and likewise at the second and the third ply.
\<close>

definition leaves :: "board \<Rightarrow> (board \<times> move) list" where
  "leaves b =
     concat (map (\<lambda>(b1, label). map (\<lambda>b3. (b3, label)) (concat (map children (children b1))))
       [(spec_down b, Down), (spec_left b, Left), (spec_right b, Right)])"

text \<open>What one pass of the loop of lines 194-208 appends for an entry of the list.\<close>

definition expand_spec :: "board \<times> move option \<Rightarrow> (board \<times> move option) list" where
  "expand_spec bm =
     (case bm of (b, move) \<Rightarrow>
        (case move of
           Some m \<Rightarrow> [(spec_down b, Some m), (spec_left b, Some m), (spec_right b, Some m)]
         | None \<Rightarrow> [(spec_down b, Some Down), (spec_left b, Some Left), (spec_right b, Some Right)]))"

text \<open>
  Boards that hold no cell above a bound, and well-formed boards of tile values below a
  bound.  A move at most doubles the largest cell, so that the leaves of a board with
  cells up to \<open>2 ^ 21\<close> hold cells up to \<open>2 ^ 24\<close>, where every score is exact.
\<close>

definition cells_le :: "int \<Rightarrow> board \<Rightarrow> bool" where
  "cells_le m b \<longleftrightarrow> list_all (list_all (\<lambda>c. c \<le> m)) b"

definition fit :: "int \<Rightarrow> board \<Rightarrow> bool" where
  "fit m b \<longleftrightarrow> wf4 b \<and> tiles b \<and> cells_le m b"

text \<open>
  The empty board, on which no move changes anything, and a board with a single tile in
  the build corner.
\<close>

definition ones_board :: board where
  "ones_board = [[1, 1, 1, 1], [1, 1, 1, 1], [1, 1, 1, 1], [1, 1, 1, 1]]"


section \<open>The code's loops on four cells\<close>

lemma left_step_row:
  "idx < length bc \<Longrightarrow>
   left_step idx i bc = (case left_cell i (bc ! idx) of Inl e \<Rightarrow> Inl e | Inr r \<Rightarrow> Inr (bc[idx := r]))"
  by (simp add: left_step_def left_cell_def Let_def)

lemma for_left_step_row:
  "idx < length bc \<Longrightarrow>
   for_loop js (left_step idx) bc =
     (case for_loop js left_cell (bc ! idx) of Inl e \<Rightarrow> Inl e | Inr r \<Rightarrow> Inr (bc[idx := r]))"
proof (induction js arbitrary: bc)
  case Nil
  then show ?case by simp
next
  case (Cons j js)
  then show ?case
    by (auto simp: left_step_row split: sum.splits)
qed

lemma two_ne_one [simp]: "2 * (x::int) \<noteq> 1" "x * 2 \<noteq> (1::int)"
  by presburger+

lemma upt3: "[0..<3] = [0, 1, 2]"
  by code_simp

lemma left_row4_lit:
  "for_loop [0..<3] left_cell (pack_left [a, b, c, d]) = Inr (spec_line [a, b, c, d])"
  unfolding upt3
  by (cases "a = 1"; cases "b = 1"; cases "c = 1"; cases "d = 1";
      simp add: left_cell_def pack_left_def spec_line_def spec_compact_def)

lemma right_step_row:
  "idx < length bc \<Longrightarrow>
   right_step idx i bc = (case right_cell i (bc ! idx) of Inl e \<Rightarrow> Inl e | Inr r \<Rightarrow> Inr (bc[idx := r]))"
  by (simp add: right_step_def right_cell_def Let_def)

lemma for_right_step_row:
  "idx < length bc \<Longrightarrow>
   for_loop js (right_step idx) bc =
     (case for_loop js right_cell (bc ! idx) of Inl e \<Rightarrow> Inl e | Inr r \<Rightarrow> Inr (bc[idx := r]))"
proof (induction js arbitrary: bc)
  case Nil
  then show ?case by simp
next
  case (Cons j js)
  then show ?case
    by (auto simp: right_step_row split: sum.splits)
qed

lemma upt14: "rev [1..<4] = [3, 2, 1]"
  by code_simp

lemma right_row4_lit:
  "for_loop (rev [1..<4]) right_cell (pack_right [a, b, c, d]) = Inr (rev (spec_line (rev [a, b, c, d])))"
  unfolding upt14
  by (cases "a = 1"; cases "b = 1"; cases "c = 1"; cases "d = 1";
      simp add: right_cell_def pack_right_def spec_line_def spec_compact_def)

lemma push_from_stop: "rowc < 0 \<Longrightarrow> push_from bc col rowc rowd db = (db, rowd)"
  by (simp add: push_from.simps)

lemma push_from_go:
  "0 \<le> rowc \<Longrightarrow> push_from bc col rowc rowd db =
     (if bc ! nat rowc ! col \<noteq> 1
      then push_from bc col (rowc - 1) (rowd - 1) (db[nat rowd := (db ! nat rowd)[col := bc ! nat rowc ! col]])
      else push_from bc col (rowc - 1) rowd db)"
  by (subst push_from.simps) simp

lemma push_within_stop: "rowc < 0 \<Longrightarrow> push_within col rowc rowd db = (db, rowd)"
  by (simp add: push_within.simps)

lemma push_within_go:
  "0 \<le> rowc \<Longrightarrow> push_within col rowc rowd db =
     (if db ! nat rowc ! col \<noteq> 1
      then push_within col (rowc - 1) (rowd - 1) (db[nat rowd := (db ! nat rowd)[col := db ! nat rowc ! col]])
      else push_within col (rowc - 1) rowd db)"
  by (subst push_within.simps) simp

lemma fill_ones_stop: "rowd < 0 \<Longrightarrow> fill_ones col rowd db = db"
  by (simp add: fill_ones.simps)

lemma fill_ones_go:
  "0 \<le> rowd \<Longrightarrow> fill_ones col rowd db =
     fill_ones col (rowd - 1) (db[nat rowd := (db ! nat rowd)[col := 1]])"
  by (subst fill_ones.simps) simp

lemmas down_unfold = push_from_stop push_from_go push_within_stop push_within_go
  fill_ones_stop fill_ones_go merge_step_def down_column_def

lemma upt14s: "rev [Suc 0..<4] = [3, 2, 1]"
  by code_simp

lemma update_same: "xs ! i = v \<Longrightarrow> xs[i := v] = xs"
  by auto

lemma push_from4:
  assumes "r0 ! c = 1" "r1 ! c = 1" "r2 ! c = 1" "r3 ! c = 1"
    and "c < length r0" "c < length r1" "c < length r2" "c < length r3"
  shows "fst (push_from [ra, rb, rc, rd] c 3 3 [r0, r1, r2, r3]) =
         put_col c (rev (spec_compact (rev (col_of c [ra, rb, rc, rd])))) [r0, r1, r2, r3]"
  using assms
  by (cases "ra ! c = 1"; cases "rb ! c = 1"; cases "rc ! c = 1"; cases "rd ! c = 1";
      simp add: push_from_stop push_from_go put_col_def col_of_def spec_compact_def update_same)

lemma down_rest4:
  assumes "c < length r0" "c < length r1" "c < length r2" "c < length r3"
  shows "down_rest c [r0, r1, r2, r3] =
         put_col c (rev (spec_compact (spec_merge (rev (col_of c [r0, r1, r2, r3])))))
           [r0, r1, r2, r3]"
  using assms
  apply (cases "r0 ! c = 1"; cases "r1 ! c = 1"; cases "r2 ! c = 1"; cases "r3 ! c = 1";
      cases "r3 ! c = r2 ! c"; cases "r2 ! c = r1 ! c"; cases "r1 ! c = r0 ! c";
      simp add: down_rest_def merge_step_def push_within_stop push_within_go
        fill_ones_stop fill_ones_go put_col_def col_of_def spec_compact_def update_same)
  done

lemma length4E:
  assumes "length xs = 4"
  obtains x0 x1 x2 x3 where "xs = [x0, x1, x2, x3]"
proof -
  from assms obtain x0 t0 where "xs = x0 # t0" "length t0 = 3"
    by (cases xs) auto
  moreover then obtain x1 t1 where "t0 = x1 # t1" "length t1 = 2"
    by (cases t0) auto
  moreover then obtain x2 t2 where "t1 = x2 # t2" "length t2 = 1"
    by (cases t1) auto
  moreover then obtain x3 where "t2 = [x3]"
    by (cases t2) auto
  ultimately show thesis using that by blast
qed

lemma length_spec_compact [simp]: "length (spec_compact xs) = length xs"
  by (induction xs) (auto simp: spec_compact_def)

lemma length_spec_merge [simp]: "length (spec_merge xs) = length xs"
  by (induction xs rule: spec_merge.induct) auto

lemma length_spec_line [simp]: "length (spec_line xs) = length xs"
  by (simp add: spec_line_def)

lemma put_col4:
  "length vs = 4 \<Longrightarrow>
   put_col c vs [r0, r1, r2, r3] = [r0[c := vs ! 0], r1[c := vs ! 1], r2[c := vs ! 2], r3[c := vs ! 3]]"
  by (erule length4E) (simp add: put_col_def)

lemma down_column_split:
  "down_column bc 4 c db = down_rest c (fst (push_from bc c 3 3 db))"
  by (simp add: down_column_def down_rest_def upt14s split: prod.splits)

lemma down_column4:
  assumes "r0 ! c = 1" "r1 ! c = 1" "r2 ! c = 1" "r3 ! c = 1"
    and "c < length r0" "c < length r1" "c < length r2" "c < length r3"
  shows "down_column [ra, rb, rc, rd] 4 c [r0, r1, r2, r3] =
         put_col c (rev (spec_line (rev (col_of c [ra, rb, rc, rd])))) [r0, r1, r2, r3]"
proof -
  define vs where "vs = rev (spec_compact (rev (col_of c [ra, rb, rc, rd])))"
  have lv: "length vs = 4" by (simp add: vs_def col_of_def)
  have p: "fst (push_from [ra, rb, rc, rd] c 3 3 [r0, r1, r2, r3]) =
        [r0[c := vs ! 0], r1[c := vs ! 1], r2[c := vs ! 2], r3[c := vs ! 3]]"
    using push_from4 [OF assms] put_col4 [OF lv] by (simp add: vs_def)
  have cv: "col_of c [r0[c := vs ! 0], r1[c := vs ! 1], r2[c := vs ! 2], r3[c := vs ! 3]] = vs"
    using lv assms(5-8) by (elim length4E) (simp add: col_of_def)
  define ws where "ws = rev (spec_compact (spec_merge (rev vs)))"
  have lw: "length ws = 4" by (simp add: ws_def lv)
  have "down_column [ra, rb, rc, rd] 4 c [r0, r1, r2, r3] =
        put_col c ws [r0[c := vs ! 0], r1[c := vs ! 1], r2[c := vs ! 2], r3[c := vs ! 3]]"
    unfolding down_column_split p ws_def
    using down_rest4 [of c "r0[c := vs ! 0]" "r1[c := vs ! 1]" "r2[c := vs ! 2]" "r3[c := vs ! 3]"]
      assms(5-8) cv by simp
  also have "\<dots> = put_col c ws [r0, r1, r2, r3]"
    by (simp add: put_col4 [OF lw])
  also have "ws = rev (spec_line (rev (col_of c [ra, rb, rc, rd])))"
    by (simp add: ws_def vs_def spec_line_def)
  finally show ?thesis .
qed

section \<open>The transforms on a well-formed board\<close>

lemma left_row4:
  assumes "length r = 4"
  shows "for_loop [0..<3] left_cell (pack_left r) = Inr (spec_line r)"
  using assms by (elim length4E) (simp only: left_row4_lit)

lemma right_row4:
  assumes "length r = 4"
  shows "for_loop (rev [1..<4]) right_cell (pack_right r) = Inr (rev (spec_line (rev r)))"
  using assms by (elim length4E) (simp only: right_row4_lit)

lemma right_row4s:
  assumes "length r = 4"
  shows "for_loop (rev [Suc 0..<4]) right_cell (pack_right r) = Inr (rev (spec_line (rev r)))"
  using right_row4 [OF assms] by simp

lemma upt4: "[0..<4] = [0, 1, 2, 3]"
  by code_simp

lemma wf4E:
  assumes "wf4 b"
  obtains r0 r1 r2 r3 where "b = [r0, r1, r2, r3]"
    "length r0 = 4" "length r1 = 4" "length r2 = 4" "length r3 = 4"
proof -
  from assms have "length b = 4" by (simp add: wf4_def)
  then obtain r0 r1 r2 r3 where b: "b = [r0, r1, r2, r3]" by (rule length4E)
  with assms show thesis using that by (simp add: wf4_def)
qed

lemma left_wf4: "wf4 b \<Longrightarrow> left b = Inr (spec_left b)"
  by (erule wf4E)
     (simp add: left_def spec_left_def upt4 for_left_step_row left_row4)

lemma right_wf4: "wf4 b \<Longrightarrow> right b = Inr (spec_right b)"
  by (erule wf4E)
     (simp add: right_def spec_right_def upt4 for_right_step_row right_row4s)

lemma ones4:
  "replicate 4 (replicate 4 (1::int)) = [[1, 1, 1, 1], [1, 1, 1, 1], [1, 1, 1, 1], [1, 1, 1, 1]]"
  by code_simp

lemma transpose4:
  "transpose [[a0, a1, a2, a3], [b0, b1, b2, b3], [c0, c1, c2, c3], [d0, d1, d2, d3]] =
   [[a0, b0, c0, d0], [a1, b1, c1, d1], [a2, b2, c2, d2], [a3, b3, c3, d3]]"
  by simp

lemma down_wf4:
  assumes "wf4 b"
  shows "down b = Inr (spec_down b)"
proof -
  from assms obtain ra rb rc rd where b: "b = [ra, rb, rc, rd]"
    and l: "length ra = 4" "length rb = 4" "length rc = 4" "length rd = 4"
    by (rule wf4E)
  define res where "res c = rev (spec_line (rev (col_of c b)))" for c
  have lr: "length (res c) = 4" for c
    by (simp add: res_def col_of_def b)
  have step: "down_column b 4 c [r0, r1, r2, r3] =
      [r0[c := res c ! 0], r1[c := res c ! 1], r2[c := res c ! 2], r3[c := res c ! 3]]"
    if "r0 ! c = 1" "r1 ! c = 1" "r2 ! c = 1" "r3 ! c = 1"
      "c < length r0" "c < length r1" "c < length r2" "c < length r3" for c r0 r1 r2 r3
    unfolding b using down_column4 [OF that, of ra rb rc rd] put_col4 [OF lr, of c]
    by (simp add: res_def b)
  have run: "fold (down_column b 4) [0, 1, 2, 3] (replicate 4 (replicate 4 1)) =
      [[res 0 ! 0, res 1 ! 0, res 2 ! 0, res 3 ! 0],
       [res 0 ! 1, res 1 ! 1, res 2 ! 1, res 3 ! 1],
       [res 0 ! 2, res 1 ! 2, res 2 ! 2, res 3 ! 2],
       [res 0 ! 3, res 1 ! 3, res 2 ! 3, res 3 ! 3]]"
    by (simp add: ones4 step)
  have cols: "transpose b = [col_of 0 b, col_of 1 b, col_of 2 b, col_of 3 b]"
    using l unfolding b by (elim length4E) (simp add: col_of_def)
  have lit: "xs = [xs ! 0, xs ! 1, xs ! 2, xs ! 3]" if "length xs = 4" for xs :: "int list"
    using that by (elim length4E) simp
  have "spec_down b = transpose [res 0, res 1, res 2, res 3]"
    by (simp add: spec_down_def cols res_def)
  also have "\<dots> = transpose [[res 0 ! 0, res 0 ! 1, res 0 ! 2, res 0 ! 3],
       [res 1 ! 0, res 1 ! 1, res 1 ! 2, res 1 ! 3],
       [res 2 ! 0, res 2 ! 1, res 2 ! 2, res 2 ! 3],
       [res 3 ! 0, res 3 ! 1, res 3 ! 2, res 3 ! 3]]"
    using lit [OF lr [of 0]] lit [OF lr [of 1]] lit [OF lr [of 2]] lit [OF lr [of 3]] by simp
  finally have sd: "spec_down b =
      [[res 0 ! 0, res 1 ! 0, res 2 ! 0, res 3 ! 0],
       [res 0 ! 1, res 1 ! 1, res 2 ! 1, res 3 ! 1],
       [res 0 ! 2, res 1 ! 2, res 2 ! 2, res 3 ! 2],
       [res 0 ! 3, res 1 ! 3, res 2 ! 3, res 3 ! 3]]"
    by (simp only: transpose4)
  have lb: "length b = 4" and lh: "length (hd b) = 4" and ne: "b \<noteq> []" "hd b \<noteq> []"
    and la: "list_all (\<lambda>row. length row = 4) b"
    using l by (auto simp: b)
  have "down b = Inr (fold (down_column b (length b)) [0..<length (hd b)]
      (replicate (length b) (replicate (length (hd b)) 1)))"
    using ne la by (simp add: down_def Let_def lh)
  then show ?thesis by (simp only: lb lh upt4 run sd)
qed

section \<open>Conservation and tile values on the rule of the specification\<close>

lemma merges_more_add: "merges M (add_mset v (add_mset v N)) \<Longrightarrow> merges M (add_mset (2 * v) N)"
  using merges_more [of M N v] by simp

lemma merges_trans: "merges N K \<Longrightarrow> merges M N \<Longrightarrow> merges M K"
  by (induction rule: merges.induct) (auto intro: merges_more_add)

lemma merges_double: "merges M (N + {#v, v#}) \<Longrightarrow> merges M (N + {#v * 2#})"
  using merges_more [of M N v] by (simp add: mult_2_right)

lemma merges_frame: "merges M N \<Longrightarrow> merges (M + K) (N + K)"
proof (induction rule: merges.induct)
  case (merges_none M)
  show ?case by (rule merges.merges_none)
next
  case (merges_more M N v)
  then have "merges (M + K) ((N + K) + {#v, v#})" by (simp add: ac_simps)
  then have "merges (M + K) ((N + K) + {#v + v#})" by (rule merges.merges_more)
  then show ?case by (simp add: ac_simps)
qed

lemma merges_add: "merges M M' \<Longrightarrow> merges N N' \<Longrightarrow> merges (M + N) (M' + N')"
  using merges_frame [of M M' N] merges_frame [of N N' M'] merges_trans
  by (metis add.commute)

lemma occupied_compact [simp]: "occupied_line (spec_compact xs) = occupied_line xs"
  by (simp add: occupied_line_def spec_compact_def)

lemma occupied_rev [simp]: "occupied_line (rev xs) = occupied_line xs"
  by (simp add: occupied_line_def flip: rev_filter)

lemma merges_spec_merge: "merges (occupied_line xs) (occupied_line (spec_merge xs))"
proof (induction xs rule: spec_merge.induct)
  case (1 x y zs)
  show ?case
  proof (cases "x = y \<and> x \<noteq> 1")
    case True
    have "merges (occupied_line zs + {#x, x#}) (occupied_line (spec_merge zs) + {#x, x#})"
      using 1(1) True by (intro merges_frame) simp
    then have "merges (occupied_line zs + {#x, x#}) (occupied_line (spec_merge zs) + {#x * 2#})"
      by (rule merges_double)
    with True show ?thesis by (simp add: occupied_line_def)
  next
    case False
    have "merges (occupied_line (y # zs) + occupied_line [x])
        (occupied_line (spec_merge (y # zs)) + occupied_line [x])"
      using 1(2) False by (intro merges_frame) simp
    with False show ?thesis by (auto simp: occupied_line_def)
  qed
qed (auto intro: merges.intros)

lemma merges_spec_line: "merges (occupied_line xs) (occupied_line (spec_line xs))"
  using merges_spec_merge [of "spec_compact xs"] by (simp add: spec_line_def)

lemma occupied_line_append: "occupied_line (xs @ ys) = occupied_line xs + occupied_line ys"
  by (simp add: occupied_line_def)

lemma occupied_Cons: "occupied (r # b) = occupied_line r + occupied b"
  by (simp add: occupied_def occupied_line_append)

lemma merges_rows:
  assumes "\<And>r. merges (occupied_line r) (occupied_line (f r))"
  shows "merges (occupied b) (occupied (map f b))"
proof (induction b)
  case Nil
  show ?case by (simp add: merges_none)
next
  case (Cons r b)
  show ?case using merges_add [OF assms [of r] Cons] by (simp add: occupied_Cons)
qed

lemma merges_spec_line_rev:
  "merges (occupied_line xs) (occupied_line (rev (spec_line (rev xs))))"
  using merges_spec_line [of "rev xs"] by simp

lemma wf4_transpose: "wf4 b \<Longrightarrow> wf4 (transpose b)"
  by (erule wf4E, elim length4E) (simp add: wf4_def)

lemma wf4_map: "(\<And>r. length (f r) = length r) \<Longrightarrow> wf4 b \<Longrightarrow> wf4 (map f b)"
  by (simp add: wf4_def list_all_iff)

lemma mset_concat_transpose4: "wf4 b \<Longrightarrow> mset (concat (transpose b)) = mset (concat b)"
  by (erule wf4E, elim length4E) simp

lemma occupied_transpose4: "wf4 b \<Longrightarrow> occupied (transpose b) = occupied b"
  using mset_concat_transpose4 [of b]
  by (simp add: occupied_def occupied_line_def mset_filter)

lemma merges_spec_left: "merges (occupied b) (occupied (spec_left b))"
  unfolding spec_left_def by (rule merges_rows) (rule merges_spec_line)

lemma merges_spec_right: "merges (occupied b) (occupied (spec_right b))"
  unfolding spec_right_def by (rule merges_rows) (rule merges_spec_line_rev)

lemma merges_spec_down:
  assumes "wf4 b"
  shows "merges (occupied b) (occupied (spec_down b))"
proof -
  let ?f = "\<lambda>c. rev (spec_line (rev c))"
  have "wf4 (map ?f (transpose b))"
    using assms by (intro wf4_map wf4_transpose) simp
  then have "occupied (spec_down b) = occupied (map ?f (transpose b))"
    by (simp add: spec_down_def occupied_transpose4)
  moreover have "merges (occupied (transpose b)) (occupied (map ?f (transpose b)))"
    by (rule merges_rows) (rule merges_spec_line_rev)
  ultimately show ?thesis using assms by (simp add: occupied_transpose4)
qed

lemma pow2_double: "1 \<le> c \<Longrightarrow> pow2 c \<Longrightarrow> pow2 (c * 2)"
  by (subst pow2.simps) simp

lemma tile_double: "tile c \<Longrightarrow> c \<noteq> 1 \<Longrightarrow> tile (c * 2)"
  by (auto simp: tile_def intro: pow2_double)

lemma tile_one [simp]: "tile 1"
  by (simp add: tile_def)

lemma tiles_compact: "list_all tile xs \<Longrightarrow> list_all tile (spec_compact xs)"
  by (auto simp: spec_compact_def list_all_iff)

lemma tiles_merge: "list_all tile xs \<Longrightarrow> list_all tile (spec_merge xs)"
  by (induction xs rule: spec_merge.induct) (auto intro: tile_double)

lemma tiles_line: "list_all tile xs \<Longrightarrow> list_all tile (spec_line xs)"
  by (simp add: spec_line_def tiles_compact tiles_merge)

lemma tiles_line_rev: "list_all tile xs \<Longrightarrow> list_all tile (rev (spec_line (rev xs)))"
  using tiles_line [of "rev xs"] by simp

lemma tiles_map: "(\<And>r. list_all tile r \<Longrightarrow> list_all tile (f r)) \<Longrightarrow> tiles b \<Longrightarrow> tiles (map f b)"
  by (induction b) (simp_all add: tiles_def)

lemma tiles_transpose4: "wf4 b \<Longrightarrow> tiles (transpose b) = tiles b"
  by (erule wf4E, elim length4E) (auto simp: tiles_def)

lemma tiles_spec_left: "tiles b \<Longrightarrow> tiles (spec_left b)"
  unfolding spec_left_def by (rule tiles_map) (rule tiles_line)

lemma tiles_spec_right: "tiles b \<Longrightarrow> tiles (spec_right b)"
  unfolding spec_right_def by (rule tiles_map) (rule tiles_line_rev)

lemma tiles_spec_down:
  assumes "wf4 b" "tiles b"
  shows "tiles (spec_down b)"
proof -
  let ?f = "\<lambda>c. rev (spec_line (rev c))"
  have "wf4 (map ?f (transpose b))"
    using assms(1) by (intro wf4_map wf4_transpose) simp
  moreover have "tiles (map ?f (transpose b))"
    using assms by (intro tiles_map tiles_line_rev) (simp_all add: tiles_transpose4)
  ultimately show ?thesis by (simp add: spec_down_def tiles_transpose4)
qed

section \<open>The transforms follow the rule of the specification\<close>

lemma wf4_spec_left: "wf4 b \<Longrightarrow> wf4 (spec_left b)"
  unfolding spec_left_def by (rule wf4_map) simp_all

lemma wf4_spec_right: "wf4 b \<Longrightarrow> wf4 (spec_right b)"
  unfolding spec_right_def by (rule wf4_map) simp_all

lemma wf4_spec_down: "wf4 b \<Longrightarrow> wf4 (spec_down b)"
  unfolding spec_down_def by (intro wf4_transpose wf4_map) simp_all

lemma chain_wf4: "wf4 chain_board"
  by (simp add: wf4_def chain_board_def)

lemma chain_tiles: "tiles chain_board"
  by code_simp

lemma twos_wf4: "wf4 twos_board"
  by (simp add: wf4_def twos_board_def)

lemma left_twos: "left twos_board = Inr [[4, 4, 1, 1], [1, 1, 1, 1], [1, 1, 1, 1], [1, 1, 1, 1]]"
  by code_simp

text \<open>
  Claim C5.  No chain merges: on a well-formed board every transform computes exactly the
  rule of the specification (compact, merge each pair once from the target edge inwards,
  compact again), in which the scan goes on behind a merged pair, so that a cell produced
  by a merge takes part in no further merge of the same call.
\<close>

theorem no_chain_merges:
  "wf4 b \<Longrightarrow>
   left b = Inr (spec_left b) \<and> right b = Inr (spec_right b) \<and> down b = Inr (spec_down b)"
  by (simp add: left_wf4 right_wf4 down_wf4)

text \<open>
  At a concrete board: the row \<open>[2, 2, 2, 2]\<close> becomes \<open>[4, 4, 1, 1]\<close> under
  \<^verbatim>\<open>left\<close>, not \<open>[8, 1, 1, 1]\<close>, and in \<open>[2, 2, 4, 8]\<close> the 4 made by the merge
  does not merge with the 4 behind it.
\<close>

theorem no_chain_merges_witness:
  "wf4 chain_board
   \<and> left chain_board = Inr [[4, 4, 1, 1], [4, 4, 8, 1], [1, 1, 1, 1], [8, 8, 1, 1]]
   \<and> right chain_board = Inr [[1, 1, 4, 4], [1, 4, 4, 8], [1, 1, 1, 1], [1, 1, 8, 8]]
   \<and> down chain_board = Inr [[1, 1, 1, 1], [1, 1, 1, 1], [4, 1, 2, 2], [4, 4, 8, 16]]"
proof -
  have "spec_left chain_board = [[4, 4, 1, 1], [4, 4, 8, 1], [1, 1, 1, 1], [8, 8, 1, 1]]"
    by code_simp
  moreover have "spec_right chain_board = [[1, 1, 4, 4], [1, 4, 4, 8], [1, 1, 1, 1], [1, 1, 8, 8]]"
    by code_simp
  moreover have "spec_down chain_board = [[1, 1, 1, 1], [1, 1, 1, 1], [4, 1, 2, 2], [4, 4, 8, 16]]"
    by code_simp
  ultimately show ?thesis
    using no_chain_merges [of chain_board] chain_wf4 by simp
qed

section \<open>The sentinel invariant\<close>

text \<open>
  Claim C7.  On a well-formed board whose cells are all the sentinel 1 or a power of two
  from 2 on, each of \<^verbatim>\<open>left\<close>, \<^verbatim>\<open>right\<close> and \<^verbatim>\<open>down\<close> returns a board, again
  four by four, whose cells are all the sentinel or a power of two from 2 on.
\<close>

theorem sentinel_invariant:
  "wf4 b \<Longrightarrow> tiles b \<Longrightarrow>
   (case left b of Inl e \<Rightarrow> False | Inr b' \<Rightarrow> wf4 b' \<and> tiles b')
   \<and> (case right b of Inl e \<Rightarrow> False | Inr b' \<Rightarrow> wf4 b' \<and> tiles b')
   \<and> (case down b of Inl e \<Rightarrow> False | Inr b' \<Rightarrow> wf4 b' \<and> tiles b')"
  by (simp add: left_wf4 right_wf4 down_wf4 wf4_spec_left wf4_spec_right wf4_spec_down
      tiles_spec_left tiles_spec_right tiles_spec_down)

theorem sentinel_invariant_witness:
  "wf4 chain_board \<and> tiles chain_board
   \<and> (case left chain_board of Inl e \<Rightarrow> False | Inr b' \<Rightarrow> wf4 b' \<and> tiles b')
   \<and> (case right chain_board of Inl e \<Rightarrow> False | Inr b' \<Rightarrow> wf4 b' \<and> tiles b')
   \<and> (case down chain_board of Inl e \<Rightarrow> False | Inr b' \<Rightarrow> wf4 b' \<and> tiles b')"
  using sentinel_invariant [OF chain_wf4 chain_tiles] chain_wf4 chain_tiles by simp

section \<open>Conservation of the occupied cells\<close>

text \<open>
  Claim C2, as stated, fails: one call of \<^verbatim>\<open>left\<close> on a board with the row
  \<open>[2, 2, 2, 2]\<close> merges two pairs, so the multiset of occupied cells goes from
  \<open>{2, 2, 2, 2}\<close> to \<open>{4, 4}\<close> and shrinks by two elements.
\<close>

theorem two_merges_in_one_call:
  "wf4 twos_board
   \<and> left twos_board = Inr [[4, 4, 1, 1], [1, 1, 1, 1], [1, 1, 1, 1], [1, 1, 1, 1]]
   \<and> \<not> conserved_once (occupied twos_board)
         (occupied [[4, 4, 1, 1], [1, 1, 1, 1], [1, 1, 1, 1], [1, 1, 1, 1]])"
proof -
  have a: "occupied twos_board = {#2, 2, 2, 2#}"
    by (simp add: occupied_def occupied_line_def twos_board_def)
  have b: "occupied [[4, 4, 1, 1], [1, 1, 1, 1], [1, 1, 1, 1], [1, 1, 1, 1]] = {#4, 4#}"
    by (simp add: occupied_def occupied_line_def)
  have "\<not> conserved_once {#2, 2, 2, 2#} {#4, 4::int#}"
  proof
    assume "conserved_once {#2, 2, 2, 2#} {#4, 4::int#}"
    then consider "{#4, 4::int#} = {#2, 2, 2, 2#}"
      | v N where "{#2, 2, 2, 2::int#} = N + {#v, v#}" "{#4, 4::int#} = N + {#v + v#}"
      by (auto simp: conserved_once_def)
    then show False
    proof cases
      case 1
      then have "size {#4, 4::int#} = size {#2, 2, 2, 2::int#}" by simp
      then show False by simp
    next
      case 2
      from 2(1) have "size {#2, 2, 2, 2::int#} = size (N + {#v, v#})" by simp
      moreover from 2(2) have "size {#4, 4::int#} = size (N + {#v + v#})" by simp
      ultimately show False by simp
    qed
  qed
  then show ?thesis using twos_wf4 left_twos by (simp add: a b)
qed

text \<open>
  Claim C2, amended.  For every single call of a transform on a well-formed board, the
  multiset of occupied cells of the output arises from that of the input by zero or more
  merges, each of which removes two equal elements and adds their sum.
\<close>

theorem conserved_by_merges:
  "wf4 b \<Longrightarrow>
   (case left b of Inl e \<Rightarrow> False | Inr b' \<Rightarrow> merges (occupied b) (occupied b'))
   \<and> (case right b of Inl e \<Rightarrow> False | Inr b' \<Rightarrow> merges (occupied b) (occupied b'))
   \<and> (case down b of Inl e \<Rightarrow> False | Inr b' \<Rightarrow> merges (occupied b) (occupied b'))"
  by (simp add: left_wf4 right_wf4 down_wf4 merges_spec_left merges_spec_right merges_spec_down)

theorem conserved_by_merges_witness:
  "wf4 twos_board
   \<and> merges (occupied twos_board)
       (occupied [[4, 4, 1, 1], [1, 1, 1, 1], [1, 1, 1, 1], [1, 1, 1, 1]])
   \<and> (case right twos_board of Inl e \<Rightarrow> False
       | Inr b' \<Rightarrow> merges (occupied twos_board) (occupied b'))
   \<and> (case down twos_board of Inl e \<Rightarrow> False
       | Inr b' \<Rightarrow> merges (occupied twos_board) (occupied b'))"
  using conserved_by_merges [OF twos_wf4] twos_wf4 left_twos by simp

section \<open>The pivot check on a well-formed board\<close>

lemma cell4:
  assumes "wf4 b" "0 \<le> r" "r < 4" "0 \<le> i" "i < 4"
  shows "cell b r i = Inr (b ! nat r ! nat i)"
proof -
  from assms(1) have "length b = 4" "\<And>k. k < 4 \<Longrightarrow> length (b ! k) = 4"
    by (auto simp: wf4_def list_all_length)
  with assms(2-) show ?thesis
    by (simp add: cell_def on_ok_def py_get_def)
qed

lemma scan4:
  assumes "wf4 b" "0 \<le> r" "r < 4" "\<forall>i\<in>set js. 0 \<le> i \<and> i < 4"
  shows "scan b r e m js = Inr (scan_result (map (\<lambda>i. b ! nat r ! nat i) js) e m)"
  using assms(4)
proof (induction js)
  case Nil
  show ?case by (simp add: scan_result_def first_occupied_def)
next
  case (Cons j js)
  then show ?case
    using cell4 [OF assms(1-3), of j]
    by (simp add: on_ok_def scan_result_def first_occupied_def)
qed

lemma row4_rev: "length xs = 4 \<Longrightarrow> map (\<lambda>i. xs ! nat i) [3, 2, 1, 0] = rev xs"
  by (erule length4E) simp

lemma row4_id: "length xs = 4 \<Longrightarrow> map (\<lambda>i. xs ! nat i) [0, 1, 2, 3] = xs"
  by (erule length4E) simp

lemma wf4_row: "wf4 b \<Longrightarrow> k < 4 \<Longrightarrow> length (b ! k) = 4"
  by (auto simp: wf4_def list_all_length)

lemma get16: "length bl = 16 \<Longrightarrow> 0 \<le> i \<Longrightarrow> i < 16 \<Longrightarrow> py_get bl i = Inr (bl ! nat i)"
  by (simp add: py_get_def)

lemmas guard_simps = guard_even_def guard_odd_def on_ok_def get16 cell4

lemma guard_even3: "wf4 b \<Longrightarrow> length bl = 16 \<Longrightarrow>
    guard_even b bl 3 0 = Inr (bl ! 0 \<noteq> b ! 3 ! 3)"
  by (simp add: guard_simps)

lemma guard_odd3: "guard_odd b bl 3 0 = Inr False"
  by (simp add: guard_odd_def)

lemma guard_even2: "guard_even b bl 2 4 = Inr False"
  by (simp add: guard_even_def)

lemma guard_odd2: "wf4 b \<Longrightarrow> length bl = 16 \<Longrightarrow>
    guard_odd b bl 2 4 = Inr (bl ! 4 \<noteq> b ! 2 ! 0 \<and> b ! 3 ! 0 = bl ! 3)"
  by (simp add: guard_simps)

lemma guard_even1: "wf4 b \<Longrightarrow> length bl = 16 \<Longrightarrow>
    guard_even b bl 1 8 = Inr (bl ! 8 \<noteq> b ! 1 ! 3 \<and> b ! 2 ! 3 = bl ! 7)"
  by (simp add: guard_simps)

lemma guard_odd1: "guard_odd b bl 1 8 = Inr False"
  by (simp add: guard_odd_def)

lemma guard_even0: "guard_even b bl 0 12 = Inr False"
  by (simp add: guard_even_def)

lemma guard_odd0: "wf4 b \<Longrightarrow> length bl = 16 \<Longrightarrow>
    guard_odd b bl 0 12 = Inr (bl ! 12 \<noteq> b ! 0 ! 0 \<and> b ! 1 ! 0 = bl ! 11)"
  by (simp add: guard_simps)

lemma scan_right4:
  assumes "wf4 b" "0 \<le> r" "r < 4"
  shows "scan b r e m [3, 2, 1, 0] = Inr (scan_result (rev (b ! nat r)) e m)"
proof -
  have l: "length (b ! nat r) = 4"
    using assms by (intro wf4_row) auto
  have "scan b r e m [3, 2, 1, 0] =
      Inr (scan_result (map (\<lambda>i. b ! nat r ! nat i) [3, 2, 1, 0]) e m)"
    using assms by (intro scan4) auto
  then show ?thesis by (simp only: row4_rev [OF l])
qed

lemma scan_left4:
  assumes "wf4 b" "0 \<le> r" "r < 4"
  shows "scan b r e m [0, 1, 2, 3] = Inr (scan_result (b ! nat r) e m)"
proof -
  have l: "length (b ! nat r) = 4"
    using assms by (intro wf4_row) auto
  have "scan b r e m [0, 1, 2, 3] =
      Inr (scan_result (map (\<lambda>i. b ! nat r ! nat i) [0, 1, 2, 3]) e m)"
    using assms by (intro scan4) auto
  then show ?thesis by (simp only: row4_id [OF l])
qed

lemmas row_result_simps = row_result_def boundary_def from_boundary_def pivot_move_def Let_def

lemma pivot_row3:
  assumes "wf4 b" "length bl = 16"
  shows "pivot_row b bl 3 = Inr (row_result b bl 3)"
  using assms
  by (simp add: pivot_row_def on_ok_def get16 guard_even3 guard_odd3 scan_right4
      row_result_simps del: scan.simps split: ctl.splits)

lemma pivot_row2:
  assumes "wf4 b" "length bl = 16"
  shows "pivot_row b bl 2 = Inr (row_result b bl 2)"
  using assms
  by (simp add: pivot_row_def on_ok_def get16 guard_even2 guard_odd2 scan_left4
      row_result_simps del: scan.simps split: ctl.splits)

lemma pivot_row1:
  assumes "wf4 b" "length bl = 16"
  shows "pivot_row b bl 1 = Inr (row_result b bl 1)"
  using assms
  by (simp add: pivot_row_def on_ok_def get16 guard_even1 guard_odd1 scan_right4
      row_result_simps numeral_2_eq_2 [symmetric] del: scan.simps split: ctl.splits)

lemma pivot_row0:
  assumes "wf4 b" "length bl = 16"
  shows "pivot_row b bl 0 = Inr (row_result b bl 0)"
  using assms
  by (simp add: pivot_row_def on_ok_def get16 guard_even0 guard_odd0 scan_left4
      row_result_simps del: scan.simps split: ctl.splits)

lemma length_sorted_desc: "wf4 b \<Longrightarrow> length (sorted_desc b) = 16"
  by (erule wf4E) (simp add: sorted_desc_def)

lemma check_pivots4:
  assumes "wf4 b"
  shows "check_pivots b = Inr (first_return
     [row_result b (sorted_desc b) 3, row_result b (sorted_desc b) 2,
      row_result b (sorted_desc b) 1, row_result b (sorted_desc b) 0])"
proof -
  note l = length_sorted_desc [OF assms]
  show ?thesis
    unfolding check_pivots_def Let_def sorted_desc_def [symmetric]
    by (simp add: on_ok_def pivot_row3 [OF assms l] pivot_row2 [OF assms l]
        pivot_row1 [OF assms l] pivot_row0 [OF assms l] split: ctl.splits)
qed

lemma scan_result_cases:
  "scan_result xs e m = Continue \<or> scan_result xs e m = Return (Some m)
   \<or> scan_result xs e m = Return (Some Undo)"
  by (simp add: scan_result_def split: option.splits)

lemma row_result_cases:
  "row_result b bl r = Continue \<or> row_result b bl r = Return None
   \<or> row_result b bl r = Return (Some Left) \<or> row_result b bl r = Return (Some Right)
   \<or> row_result b bl r = Return (Some Undo)"
  using scan_result_cases [of "from_boundary b r" "bl ! ((3 - r) * 4)" "pivot_move r"]
  by (auto simp: row_result_def pivot_move_def Let_def)

lemma first_return_cases:
  "list_all (\<lambda>r. r = Continue \<or> r = Return None \<or> r = Return (Some Left)
       \<or> r = Return (Some Right) \<or> r = Return (Some Undo)) rs \<Longrightarrow>
   first_return rs \<in> {None, Some Left, Some Right, Some Undo}"
  by (induction rs rule: first_return.induct) auto

lemma seated_wf4: "wf4 seated_board"
  by (simp add: wf4_def seated_board_def)

lemma sorted_desc_nth:
  assumes "i \<le> j" "j < length (sorted_desc b)"
  shows "sorted_desc b ! j \<le> sorted_desc b ! i"
proof -
  have "sorted_wrt (\<lambda>x y. y \<le> x) (sorted_desc b)"
    by (simp add: sorted_desc_def sorted_wrt_rev)
  then show ?thesis
    using assms by (cases "i = j") (auto simp: sorted_wrt_iff_nth_less)
qed

lemma row_result_fires:
  "row_result b (sorted_desc b) r =
     (if expected b r \<le> 64 then Return None
      else if fires b r
           then scan_result (from_boundary b r) (expected b r) (pivot_move r)
           else Continue)"
  by (simp add: row_result_def fires_def expected_def Let_def)

lemma expected_mono:
  assumes "wf4 b" "r \<le> r'" "r' < 4"
  shows "expected b r \<le> expected b r'"
  unfolding expected_def using assms length_sorted_desc [OF assms(1)]
  by (intro sorted_desc_nth) auto

lemma pivot_wf4: "wf4 pivot_board"
  by (simp add: wf4_def pivot_board_def)

text \<open>
  Claim C10.  On every board of four rows of four integers \<^verbatim>\<open>check_pivots\<close> returns
  without an exception, and its result is one of \<open>None\<close>, left, right and undo.  The
  model raises IndexError on any index out of range, so the reads of the row below only
  happen where that row exists.
\<close>

theorem check_pivots_total:
  "wf4 b \<Longrightarrow>
   check_pivots b \<in> {Inr None, Inr (Some Left), Inr (Some Right), Inr (Some Undo)}"
  using first_return_cases [of "[row_result b (sorted_desc b) 3, row_result b (sorted_desc b) 2,
      row_result b (sorted_desc b) 1, row_result b (sorted_desc b) 0]"]
  by (simp add: check_pivots4 row_result_cases)

theorem check_pivots_total_witness:
  "wf4 seated_board \<and> check_pivots seated_board = Inr (Some Left)"
proof -
  have "check_pivots seated_board \<noteq> Inr None" "check_pivots seated_board \<noteq> Inr (Some Right)"
    "check_pivots seated_board \<noteq> Inr (Some Undo)"
    by code_simp+
  then show ?thesis using check_pivots_total [OF seated_wf4] seated_wf4 by simp
qed

text \<open>
  Claim C4, as stated, fails: on the board below the check fires at the bottom row, the
  expected value 128 is in that row, and the result is undo, because the scan stops at the
  first occupied cell it meets from the boundary, which is the 2 in the corner.
\<close>

theorem pivot_findable_but_undo:
  "wf4 pivot_board \<and> fires pivot_board 3
   \<and> expected pivot_board 3 \<in> set (pivot_board ! 3)
   \<and> check_pivots pivot_board = Inr (Some Undo)"
proof -
  have "fires pivot_board 3" by code_simp
  moreover have "expected pivot_board 3 \<in> set (pivot_board ! 3)" by code_simp
  moreover have "check_pivots pivot_board = Inr (Some Undo)" by code_simp
  ultimately show ?thesis using pivot_wf4 by simp
qed

text \<open>
  Claim C4, amended.  Let the check fire at a row and at none of the rows below it, and let
  the row have an occupied cell.  If the first occupied cell of the row, read from its
  boundary cell, holds the expected value, \<^verbatim>\<open>check_pivots\<close> returns right (even rank)
  or left (odd rank); if it holds another value, \<^verbatim>\<open>check_pivots\<close> returns undo.
\<close>

theorem pivot_first_occupied:
  assumes "wf4 b" "r < 4" "fires b r" "list_all (\<lambda>r'. \<not> fires b r') [r + 1 ..< 4]"
    and "first_occupied (from_boundary b r) = Some c"
  shows "check_pivots b = Inr (Some (if c = expected b r then pivot_move r else Undo))"
proof -
  have big: "64 < expected b r'" if "r \<le> r'" "r' < 4" for r'
    using expected_mono [OF assms(1) that] assms(3) by (simp add: fires_def)
  have later: "row_result b (sorted_desc b) r' = Continue" if "r < r'" "r' < 4" for r'
    using big [of r'] that assms(4) by (simp add: row_result_fires list_all_iff)
  have here: "row_result b (sorted_desc b) r =
      Return (Some (if c = expected b r then pivot_move r else Undo))"
    using big [of r] assms(2,3,5) by (simp add: row_result_fires scan_result_def)
  from assms(2) consider "r = 0" | "r = 1" | "r = 2" | "r = 3" by linarith
  then show ?thesis
  proof cases
    case 1
    with here later [of 1] later [of 2] later [of 3] show ?thesis
      by (simp add: check_pivots4 [OF assms(1)])
  next
    case 2
    with here later [of 2] later [of 3] show ?thesis
      by (simp add: check_pivots4 [OF assms(1)])
  next
    case 3
    with here later [of 3] show ?thesis
      by (simp add: check_pivots4 [OF assms(1)])
  next
    case 4
    with here show ?thesis
      by (simp add: check_pivots4 [OF assms(1)])
  qed
qed

theorem pivot_first_occupied_witness:
  "wf4 seated_board \<and> fires seated_board 2 \<and> \<not> fires seated_board 3
   \<and> first_occupied (from_boundary seated_board 2) = Some 128
   \<and> expected seated_board 2 = 128
   \<and> check_pivots seated_board = Inr (Some Left)"
proof -
  have f2: "fires seated_board 2" by code_simp
  have f3: "\<not> fires seated_board 3" by code_simp
  have fo: "first_occupied (from_boundary seated_board 2) = Some 128" by code_simp
  have ex: "expected seated_board 2 = 128" by code_simp
  have up: "[2 + 1 ..< 4] = [3::nat]" by code_simp
  have "list_all (\<lambda>r'. \<not> fires seated_board r') [2 + 1 ..< 4]"
    unfolding up using f3 by simp
  from pivot_first_occupied [OF seated_wf4 _ f2 this fo]
  show ?thesis using seated_wf4 f2 f3 fo ex by (simp add: pivot_move_def)
qed

section \<open>The scorer on a well-formed board\<close>

lemma path_loop_run:
  "path_loop bl ind l acc = acc @ run l (drop ind bl)"
proof (induction bl ind l acc rule: path_loop.induct)
  case (1 bl ind l acc)
  show ?case
  proof (cases "ind < length bl \<and> bl ! ind \<le> l")
    case True
    then have "drop ind bl = bl ! ind # drop (Suc ind) bl"
      by (simp add: Cons_nth_drop_Suc)
    with True 1 show ?thesis
      by (subst path_loop.simps) simp
  next
    case False
    then show ?thesis
      by (subst path_loop.simps) (cases "ind < length bl"; simp add: Cons_nth_drop_Suc [symmetric])
  qed
qed

lemma mono_prefix_run: "mono_prefix (x # xs) = x # run x xs"
  by (induction xs arbitrary: x) auto

lemma find_longest_path4:
  assumes "wf4 b"
  shows "find_longest_path b = Inr (mono_prefix (snake b))"
proof -
  from assms obtain r0 r1 r2 r3 where b: "b = [r0, r1, r2, r3]"
    and l: "length r0 = 4" "length r1 = 4" "length r2 = 4" "length r3 = 4"
    by (rule wf4E)
  have s: "rev (concat ((b[0 := rev (b ! 0)])[2 := rev ((b[0 := rev (b ! 0)]) ! 2)])) = snake b"
    by (simp add: b snake_def)
  from l(4) obtain x xs where sn: "snake b = x # xs"
    by (cases r3 rule: rev_cases) (auto simp: b snake_def)
  have "find_longest_path b =
      (if snake b = [] then Inl IndexError else Inr (path_loop (snake b) 0 (snake b ! 0) []))"
    unfolding find_longest_path_def Let_def s by (simp add: b)
  then show ?thesis
    by (simp add: sn path_loop_run mono_prefix_run)
qed

lemma mono_prefix_prefix: "prefix (mono_prefix xs) xs"
  by (induction xs rule: mono_prefix.induct) auto



lemma for_loop_append:
  "for_loop (xs @ ys) f acc =
     (case for_loop xs f acc of Inl e \<Rightarrow> Inl e | Inr s \<Rightarrow> for_loop ys f s)"
  by (induction xs arbitrary: acc) (simp_all split: sum.splits)

lemma for_loop_concat: "for_loop b (\<lambda>row. for_loop row f) acc = for_loop (concat b) f acc"
  by (induction b arbitrary: acc) (simp_all add: for_loop_append split: sum.splits)

lemma set_snake: "wf4 b \<Longrightarrow> set (snake b) = set (concat b)"
  by (erule wf4E) (auto simp: snake_def)

lemma length_snake: "wf4 b \<Longrightarrow> length (snake b) = 16 \<and> length (concat b) = 16"
  by (erule wf4E) (simp add: snake_def)

lemma pow2_ilog2: "pow2 c \<Longrightarrow> c = 2 ^ ilog2 c"
proof (induction c rule: pow2.induct)
  case (1 c)
  show ?case
  proof (cases "c \<le> 1")
    case True
    with 1(2) show ?thesis
      by (subst ilog2.simps) (simp add: pow2.simps [of c])
  next
    case False
    with 1(2) have m: "c mod 2 = 0" and p: "pow2 (c div 2)"
      by (simp_all add: pow2.simps [of c])
    from 1(1) [OF False p] have "c div 2 = 2 ^ ilog2 (c div 2)" .
    with m have "c = 2 * 2 ^ ilog2 (c div 2)" by presburger
    with False show ?thesis
      by (subst ilog2.simps) simp
  qed
qed

lemma tile_pow2: "tile c \<Longrightarrow> pow2 c"
  by (auto simp: tile_def pow2.simps [of 1])

lemma tile_positive: "tile c \<Longrightarrow> 1 \<le> c"
  by (auto simp: tile_def)

lemma tiles_positive: "tiles b \<Longrightarrow> positive b"
  by (auto simp: tiles_def positive_def list_all_iff intro: tile_positive)

lemma tiles_perceived: "tiles b \<Longrightarrow> perceived b"
  by (auto simp: tiles_def perceived_def list_all_iff)

text \<open>Every integer from 0 to \<open>2 ^ 53\<close> is a double.\<close>

lemma odd_part_le: "\<bar>odd_part n\<bar> \<le> \<bar>n\<bar>"
proof (induction n rule: odd_part.induct)
  case (1 n)
  show ?case
  proof (cases "n = 0 \<or> n mod 2 = 1")
    case True
    then show ?thesis by (subst odd_part.simps) simp
  next
    case False
    with 1 have "\<bar>odd_part (n div 2)\<bar> \<le> \<bar>n div 2\<bar>" by simp
    moreover have "\<bar>n div 2\<bar> \<le> \<bar>n\<bar>" by presburger
    ultimately show ?thesis
      using False by (subst odd_part.simps) simp
  qed
qed

lemma odd_part_53: "odd_part (2 ^ 53) = 1"
  by code_simp

lemma is_double_small:
  assumes "0 \<le> n" "n \<le> 2 ^ 53"
  shows "is_double n"
proof (cases "n = 2 ^ 53")
  case True
  have "is_double (2 ^ 53)"
    unfolding is_double_def odd_part_53 by simp
  with True show ?thesis by simp
next
  case False
  with assms have "\<bar>n\<bar> < 2 ^ 53" by simp
  with odd_part_le [of n] show ?thesis
    by (simp add: is_double_def)
qed

lemma tile_ilog2_le:
  assumes "tile c" "c \<le> 2 ^ 24"
  shows "ilog2 c \<le> 24"
proof -
  have "(2::int) ^ ilog2 c \<le> 2 ^ 24"
    using pow2_ilog2 [OF tile_pow2 [OF assms(1)]] assms(2) by simp
  then show ?thesis
    by (rule power_le_imp_le_exp [rotated]) simp
qed

lemma log2_tile: "tile c \<Longrightarrow> log2 c = Inr (ilog2 c)"
  using pow2_ilog2 [OF tile_pow2, of c] tile_positive [of c] by (simp add: log2_def)

lemma pow_bound:
  assumes "base = 3 \<or> base = 4" "k \<le> 24"
  shows "1 \<le> base ^ k \<and> base ^ k \<le> (4::int) ^ 24"
proof -
  have "base ^ k \<le> 4 ^ k"
    using assms(1) by (intro power_mono) auto
  also have "\<dots> \<le> (4::int) ^ 24"
    using assms(2) by (intro power_increasing) auto
  finally have "base ^ k \<le> (4::int) ^ 24" .
  moreover have "1 \<le> base ^ k"
    using assms(1) by (intro one_le_power) auto
  ultimately show ?thesis by simp
qed

lemma float_pow_small:
  assumes "base = 3 \<or> base = 4" "k \<le> 24"
  shows "float_pow base k = Inr (real_of_int (base ^ k))"
proof -
  from pow_bound [OF assms] have b: "1 \<le> base ^ k" "base ^ k \<le> 4 ^ 24" by simp_all
  then have "is_double (base ^ k)"
    by (intro is_double_small) simp_all
  moreover from b have "\<not> 2 ^ 1024 \<le> base ^ k" by simp
  ultimately show ?thesis
    by (simp only: float_pow_def if_True if_False)
qed

lemma float_add_small:
  assumes "0 \<le> a + p" "a + p \<le> 2 ^ 53"
  shows "float_add (real_of_int a) (real_of_int p) = Inr (real_of_int (a + p))"
proof -
  have s: "real_of_int a + real_of_int p = real_of_int (a + p)" by simp
  show ?thesis
    unfolding float_add_def s floor_of_int using is_double_small [OF assms] by simp
qed

lemma add_pow_tile:
  assumes "tile c" "c \<le> 2 ^ 24" "base = 3 \<or> base = 4" "0 \<le> a" "a + 4 ^ 24 \<le> 2 ^ 53"
  shows "add_pow base c (real_of_int a) = Inr (real_of_int (a + base ^ ilog2 c))"
proof -
  have k: "ilog2 c \<le> 24" by (rule tile_ilog2_le) fact+
  from pow_bound [OF assms(3) k] assms(4,5)
  have "0 \<le> a + base ^ ilog2 c" "a + base ^ ilog2 c \<le> 2 ^ 53" by simp_all
  then show ?thesis
    by (simp only: add_pow_def log2_tile [OF assms(1)] float_pow_small [OF assms(3) k]
        float_add_small sum.case)
qed

lemma add_pow_nonpos: "c \<le> 0 \<Longrightarrow> add_pow base c acc = Inl ValueError"
  by (simp add: add_pow_def log2_def)

lemma add_pow_loop:
  assumes "\<forall>c\<in>set xs. c \<le> 0 \<or> (tile c \<and> c \<le> 2 ^ 24)" "base = 3 \<or> base = 4"
    "0 \<le> a" "a + int (length xs) * 4 ^ 24 \<le> 2 ^ 53"
  shows "for_loop xs (add_pow base) (real_of_int a) =
     (if list_all (\<lambda>c. 1 \<le> c) xs then Inr (real_of_int (a + (\<Sum>x\<leftarrow>xs. base ^ ilog2 x)))
      else Inl ValueError)
   \<and> 0 \<le> a + (\<Sum>x\<leftarrow>xs. base ^ ilog2 x)
   \<and> (list_all (\<lambda>c. 1 \<le> c) xs \<longrightarrow>
        a + (\<Sum>x\<leftarrow>xs. base ^ ilog2 x) \<le> a + int (length xs) * 4 ^ 24)"
  using assms
proof (induction xs arbitrary: a)
  case Nil
  then show ?case by simp
next
  case (Cons x xs)
  have nn: "0 \<le> base ^ ilog2 y" for y
    using Cons.prems(2) by auto
  have s0: "0 \<le> (\<Sum>x\<leftarrow>xs. base ^ ilog2 x)"
    by (rule sum_list_nonneg) (auto simp: nn)
  show ?case
  proof (cases "x \<le> 0")
    case True
    with Cons.prems(3) nn [of x] s0 show ?thesis
      by (simp add: add_pow_nonpos)
  next
    case False
    with Cons.prems(1) have t: "tile x" "x \<le> 2 ^ 24" by auto
    have k: "ilog2 x \<le> 24" by (rule tile_ilog2_le) fact+
    from pow_bound [OF Cons.prems(2) k]
    have p: "1 \<le> base ^ ilog2 x" "base ^ ilog2 x \<le> 4 ^ 24" by simp_all
    from Cons.prems(4) have a1: "a + 4 ^ 24 \<le> 2 ^ 53"
      by (simp add: algebra_simps)
    have st: "add_pow base x (real_of_int a) = Inr (real_of_int (a + base ^ ilog2 x))"
      by (rule add_pow_tile) fact+
    have ih: "for_loop xs (add_pow base) (real_of_int (a + base ^ ilog2 x)) =
       (if list_all (\<lambda>c. 1 \<le> c) xs
        then Inr (real_of_int (a + base ^ ilog2 x + (\<Sum>x\<leftarrow>xs. base ^ ilog2 x)))
        else Inl ValueError)
     \<and> 0 \<le> a + base ^ ilog2 x + (\<Sum>x\<leftarrow>xs. base ^ ilog2 x)
     \<and> (list_all (\<lambda>c. 1 \<le> c) xs \<longrightarrow>
          a + base ^ ilog2 x + (\<Sum>x\<leftarrow>xs. base ^ ilog2 x)
            \<le> a + base ^ ilog2 x + int (length xs) * 4 ^ 24)"
    proof (rule Cons.IH)
      show "\<forall>c\<in>set xs. c \<le> 0 \<or> (tile c \<and> c \<le> 2 ^ 24)" using Cons.prems(1) by simp
      show "base = 3 \<or> base = 4" by fact
      show "0 \<le> a + base ^ ilog2 x" using Cons.prems(3) p by simp
      show "a + base ^ ilog2 x + int (length xs) * 4 ^ 24 \<le> 2 ^ 53"
        using Cons.prems(4) p by (simp add: algebra_simps)
    qed
    from tile_positive [OF t(1)] have x1: "1 \<le> x" .
    from ih have i1: "for_loop xs (add_pow base) (real_of_int (a + base ^ ilog2 x)) =
       (if list_all (\<lambda>c. 1 \<le> c) xs
        then Inr (real_of_int (a + base ^ ilog2 x + (\<Sum>x\<leftarrow>xs. base ^ ilog2 x)))
        else Inl ValueError)"
      and i2: "0 \<le> a + base ^ ilog2 x + (\<Sum>x\<leftarrow>xs. base ^ ilog2 x)"
      and i3: "list_all (\<lambda>c. 1 \<le> c) xs \<Longrightarrow>
          a + base ^ ilog2 x + (\<Sum>x\<leftarrow>xs. base ^ ilog2 x)
            \<le> a + base ^ ilog2 x + int (length xs) * 4 ^ 24"
      by simp_all
    have c1: "for_loop (x # xs) (add_pow base) (real_of_int a) =
       (if list_all (\<lambda>c. 1 \<le> c) (x # xs)
        then Inr (real_of_int (a + (\<Sum>x\<leftarrow>x # xs. base ^ ilog2 x)))
        else Inl ValueError)"
      using x1 i1 by (simp add: st add.assoc del: of_int_add of_int_power)
    have c2: "0 \<le> a + (\<Sum>x\<leftarrow>x # xs. base ^ ilog2 x)"
      using i2 by (simp add: add.assoc)
    have c3: "a + (\<Sum>x\<leftarrow>x # xs. base ^ ilog2 x) \<le> a + int (length (x # xs)) * 4 ^ 24"
      if "list_all (\<lambda>c. 1 \<le> c) (x # xs)"
      using i3 that p by (simp add: algebra_simps)
    from c1 c2 c3 show ?thesis by blast
  qed
qed

lemma score4:
  assumes "wf4 b" "perceived b" "bounded_cells b"
  shows "score b = (if positive b then Inr (real_of_int (score_value b)) else Inl ValueError)"
proof -
  let ?p = "mono_prefix (snake b)"
  have cells: "\<forall>c\<in>set (concat b). c \<le> 0 \<or> (tile c \<and> c \<le> 2 ^ 24)"
    using assms(2,3) by (auto simp: perceived_def bounded_cells_def list_all_iff)
  have sub: "set ?p \<subseteq> set (concat b)"
    using set_mono_prefix [OF mono_prefix_prefix [of "snake b"]] set_snake [OF assms(1)] by simp
  have "length ?p \<le> length (snake b)"
    using mono_prefix_prefix [of "snake b"] by (rule prefix_length_le)
  with length_snake [OF assms(1)] have lp: "length ?p \<le> 16" and lc: "length (concat b) = 16"
    by simp_all
  have pos: "positive b \<longleftrightarrow> list_all (\<lambda>c. 1 \<le> c) (concat b)"
    by (auto simp: positive_def list_all_iff)
  from lp have b1: "0 + int (length ?p) * 4 ^ 24 \<le> 2 ^ 53" by simp
  from cells sub have c1: "\<forall>c\<in>set ?p. c \<le> 0 \<or> (tile c \<and> c \<le> 2 ^ 24)" by blast
  have l1: "for_loop ?p (add_pow 4) (real_of_int 0) =
       (if list_all (\<lambda>c. 1 \<le> c) ?p then Inr (real_of_int (0 + (\<Sum>x\<leftarrow>?p. 4 ^ ilog2 x)))
        else Inl ValueError)"
    and n1: "0 \<le> 0 + (\<Sum>x\<leftarrow>?p. (4::int) ^ ilog2 x)"
    and u1: "list_all (\<lambda>c. 1 \<le> c) ?p \<longrightarrow>
        0 + (\<Sum>x\<leftarrow>?p. (4::int) ^ ilog2 x) \<le> 0 + int (length ?p) * 4 ^ 24"
    using add_pow_loop [OF c1 _ _ b1, of 4] by simp_all
  show ?thesis
  proof (cases "list_all (\<lambda>c. 1 \<le> c) ?p")
    case False
    with sub have "\<not> positive b"
      unfolding pos by (auto simp: list_all_iff)
    with False l1 show ?thesis
      by (simp add: score_def find_longest_path4 [OF assms(1)])
  next
    case True
    let ?s = "\<Sum>x\<leftarrow>?p. (4::int) ^ ilog2 x"
    from True u1 lp have "?s \<le> 16 * 4 ^ 24" by simp
    with lc have b2: "?s + int (length (concat b)) * 4 ^ 24 \<le> 2 ^ 53" by simp
    from n1 have n2: "0 \<le> ?s" by simp
    have l2: "for_loop (concat b) (add_pow 3) (real_of_int ?s) =
       (if list_all (\<lambda>c. 1 \<le> c) (concat b)
        then Inr (real_of_int (?s + (\<Sum>x\<leftarrow>concat b. 3 ^ ilog2 x)))
        else Inl ValueError)"
      using add_pow_loop [OF cells _ n2 b2, of 3] by simp
    from True l1 have l1': "for_loop ?p (add_pow 4) 0 = Inr (real_of_int ?s)" by simp
    show ?thesis
      by (simp only: score_def find_longest_path4 [OF assms(1)] sum.case l1' for_loop_concat l2
          pos score_value_def)
  qed
qed













section \<open>The lookahead\<close>

text \<open>
  The head of a stable sort is the first element of least key; \<^verbatim>\<open>next_move\<close> sorts by
  the negated score.
\<close>

lemma hd_insort_key:
  "hd (insort_key f x ys) = (if ys = [] \<or> f x \<le> f (hd ys) then x else hd ys)"
  by (cases ys) auto

lemma sort_key_first_min:
  fixes f :: "'a \<Rightarrow> 'b::linorder"
  assumes "xs \<noteq> []"
  shows "\<exists>k<length xs. hd (sort_key f xs) = xs ! k
           \<and> (\<forall>j<length xs. f (xs ! k) \<le> f (xs ! j)) \<and> (\<forall>j<k. f (xs ! k) < f (xs ! j))"
  using assms
proof (induction xs)
  case Nil
  then show ?case by simp
next
  case (Cons x xs)
  show ?case
  proof (cases "xs = []")
    case True
    then show ?thesis by simp
  next
    case False
    from Cons.IH [OF False] obtain k where k: "k < length xs" "hd (sort_key f xs) = xs ! k"
      "\<forall>j<length xs. f (xs ! k) \<le> f (xs ! j)" "\<forall>j<k. f (xs ! k) < f (xs ! j)"
      by blast
    have ne: "sort_key f xs \<noteq> []"
      using False by (metis length_0_conv length_sort)
    show ?thesis
    proof (cases "f x \<le> f (xs ! k)")
      case True
      have "hd (sort_key f (x # xs)) = (x # xs) ! 0"
        using True k(2) ne by (simp add: hd_insort_key)
      moreover have "\<forall>j<length (x # xs). f ((x # xs) ! 0) \<le> f ((x # xs) ! j)"
        using True k(3) by (auto simp: nth_Cons split: nat.splits intro: order_trans)
      ultimately show ?thesis by (intro exI [of _ 0]) simp
    next
      case False
      have "hd (sort_key f (x # xs)) = (x # xs) ! Suc k"
        using False k(2) ne by (simp add: hd_insort_key)
      moreover have "\<forall>j<length (x # xs). f ((x # xs) ! Suc k) \<le> f ((x # xs) ! j)"
        using False k(3) by (auto simp: nth_Cons split: nat.splits)
      moreover have "\<forall>j<Suc k. f ((x # xs) ! Suc k) < f ((x # xs) ! j)"
        using False k(4) by (auto simp: nth_Cons split: nat.splits)
      ultimately show ?thesis using k(1) by (intro exI [of _ "Suc k"]) simp
    qed
  qed
qed

lemma for_loop_collect:
  assumes "\<And>x. x \<in> set xs \<Longrightarrow> f x = Inr (g x)"
  shows "for_loop xs (\<lambda>x acc. on_ok (f x) (\<lambda>cs. Inr (acc @ cs))) acc0 = Inr (acc0 @ concat (map g xs))"
  using assms by (induction xs arbitrary: acc0) (simp_all add: on_ok_def)

lemma expand4: "wf4 b \<Longrightarrow> expand (b, m) = Inr (expand_spec (b, m))"
  by (simp add: expand_def expand_spec_def on_ok_def down_wf4 left_wf4 right_wf4)

lemma expand_level4:
  assumes "\<And>bm. bm \<in> set cur \<Longrightarrow> wf4 (fst bm)"
  shows "expand_level cur = Inr (concat (map expand_spec cur))"
  unfolding expand_level_def
  using for_loop_collect [of cur expand expand_spec "[]"] assms expand4
  by (metis append_Nil prod.collapse)

lemma expand_spec_wf4: "wf4 (fst bm) \<Longrightarrow> bm' \<in> set (expand_spec bm) \<Longrightarrow> wf4 (fst bm')"
  by (cases bm) (auto simp: expand_spec_def wf4_spec_left wf4_spec_right wf4_spec_down
      split: option.splits)

lemma compact_le: "list_all (\<lambda>c. c \<le> m) xs \<Longrightarrow> 1 \<le> m \<Longrightarrow> list_all (\<lambda>c. c \<le> m) (spec_compact xs)"
  by (auto simp: spec_compact_def list_all_iff)

lemma merge_le:
  "list_all (\<lambda>c. c \<le> m) xs \<Longrightarrow> 1 \<le> m \<Longrightarrow> list_all (\<lambda>c. c \<le> 2 * m) (spec_merge xs)"
  by (induction xs rule: spec_merge.induct) auto

lemma line_le:
  assumes "list_all (\<lambda>c. c \<le> m) xs" "1 \<le> m"
  shows "list_all (\<lambda>c. c \<le> 2 * m) (spec_line xs)"
  unfolding spec_line_def
  using merge_le [OF compact_le [OF assms] assms(2)] assms(2)
  by (intro compact_le) simp_all

lemma line_rev_le:
  assumes "list_all (\<lambda>c. c \<le> m) xs" "1 \<le> m"
  shows "list_all (\<lambda>c. c \<le> 2 * m) (rev (spec_line (rev xs)))"
  using line_le [of m "rev xs"] assms by simp

lemma cells_transpose4:
  "wf4 b \<Longrightarrow> list_all (list_all P) (transpose b) = list_all (list_all P) b"
  by (erule wf4E, elim length4E) auto

lemma cells_le_left: "cells_le m b \<Longrightarrow> 1 \<le> m \<Longrightarrow> cells_le (2 * m) (spec_left b)"
  by (auto simp: cells_le_def spec_left_def list_all_iff intro: line_le [unfolded list_all_iff, rule_format])

lemma cells_le_right: "cells_le m b \<Longrightarrow> 1 \<le> m \<Longrightarrow> cells_le (2 * m) (spec_right b)"
  by (auto simp: cells_le_def spec_right_def list_all_iff simp del: set_rev
      intro: line_rev_le [unfolded list_all_iff, rule_format])

lemma cells_le_down:
  assumes "wf4 b" "cells_le m b" "1 \<le> m"
  shows "cells_le (2 * m) (spec_down b)"
proof -
  let ?f = "\<lambda>c. rev (spec_line (rev c))"
  have w: "wf4 (map ?f (transpose b))"
    using assms(1) by (intro wf4_map wf4_transpose) (simp add: length_spec_line)
  have "list_all (list_all (\<lambda>c. c \<le> m)) (transpose b)"
    using assms(1,2) by (simp add: cells_transpose4 cells_le_def)
  then have "list_all (list_all (\<lambda>c. c \<le> 2 * m)) (map ?f (transpose b))"
    using line_rev_le [OF _ assms(3)] by (auto simp: list_all_iff simp del: set_rev)
  then show ?thesis
    unfolding cells_le_def spec_down_def by (simp add: cells_transpose4 [OF w])
qed

lemma fit_children:
  assumes "fit m b" "1 \<le> m" "c \<in> set (children b)"
  shows "fit (2 * m) c"
  using assms
  by (auto simp: fit_def children_def wf4_spec_left wf4_spec_right wf4_spec_down
      tiles_spec_left tiles_spec_right tiles_spec_down cells_le_left cells_le_right cells_le_down)

lemma leaves_eq:
  "leaves b = map (\<lambda>c. (c, Down)) (concat (map children (children (spec_down b))))
     @ map (\<lambda>c. (c, Left)) (concat (map children (children (spec_left b))))
     @ map (\<lambda>c. (c, Right)) (concat (map children (children (spec_right b))))"
  by (simp add: leaves_def)

lemma length_leaves: "length (leaves b) = 27"
  by (simp add: leaves_def children_def)


lemma fit_leaves:
  assumes "fit m b" "1 \<le> m" "x \<in> set (leaves b)"
  shows "fit (8 * m) (fst x)"
proof -
  from assms(3) have "\<exists>c1\<in>set (children b). \<exists>c2\<in>set (children c1). fst x \<in> set (children c2)"
    by (force simp: leaves_eq children_def [of b])
  then obtain c1 c2 where c: "c1 \<in> set (children b)" "c2 \<in> set (children c1)"
    "fst x \<in> set (children c2)"
    by blast
  from fit_children [OF assms(1,2) c(1)] have "fit (2 * m) c1" .
  from fit_children [OF this _ c(2)] assms(2) have "fit (2 * (2 * m)) c2" by simp
  from fit_children [OF this _ c(3)] assms(2) show ?thesis by simp
qed

lemma possible_boards4:
  assumes "wf4 b"
  shows "possible_boards b = Inr (map (\<lambda>(x, l). (x, Some l)) (leaves b))"
proof -
  let ?l1 = "expand_spec (b, None)"
  let ?l2 = "concat (map expand_spec ?l1)"
  let ?l3 = "concat (map expand_spec ?l2)"
  have w1: "wf4 (fst bm)" if "bm \<in> set ?l1" for bm
    using expand_spec_wf4 [of "(b, None)" bm] assms that by simp
  have w2: "wf4 (fst bm)" if "bm \<in> set ?l2" for bm
  proof -
    from that obtain bm0 where m: "bm0 \<in> set ?l1" "bm \<in> set (expand_spec bm0)" by auto
    from expand_spec_wf4 [OF w1 [OF m(1)] m(2)] show ?thesis .
  qed
  have e1: "expand_level [(b, None)] = Inr ?l1"
    using expand_level4 [of "[(b, None)]"] assms by simp
  have e2: "expand_level ?l1 = Inr ?l2"
    using w1 by (rule expand_level4)
  have e3: "expand_level ?l2 = Inr ?l3"
    using w2 by (rule expand_level4)
  have p: "possible_boards b = Inr ?l3"
    by (simp only: possible_boards_def upt3 for_loop.simps e1 e2 e3 sum.case)
  have "?l3 = map (\<lambda>(x, l). (x, Some l)) (leaves b)"
    by (simp add: expand_spec_def leaves_def children_def)
  with p show ?thesis by simp
qed

lemma scored_loop:
  assumes "\<And>bm. bm \<in> set ls \<Longrightarrow> score (fst bm) = Inr (f (fst bm))"
  shows "for_loop ls (\<lambda>bm scored. case bm of (b, move) \<Rightarrow>
            on_ok (score b) (\<lambda>s. Inr (scored @ [(s, move)]))) acc
         = Inr (acc @ map (\<lambda>bm. (f (fst bm), snd bm)) ls)"
  using assms
proof (induction ls arbitrary: acc)
  case Nil
  show ?case by simp
next
  case (Cons bm ls)
  obtain x m where bm: "bm = (x, m)" by (cases bm)
  from Cons.prems [of bm] bm have s: "score x = Inr (f x)" by simp
  show ?case
    using Cons.IH [of "acc @ [(f x, m)]"] Cons.prems
    by (simp add: bm s on_ok_def)
qed

lemma scored_boards4:
  assumes "\<And>bm. bm \<in> set ls \<Longrightarrow> score (fst bm) = Inr (f (fst bm))"
  shows "scored_boards ls = Inr (map (\<lambda>bm. (f (fst bm), snd bm)) ls)"
  unfolding scored_boards_def using scored_loop [OF assms, of ls "[]"] by simp

lemma bounded_cells_le: "bounded_cells b \<longleftrightarrow> cells_le (2 ^ 24) b"
  by (simp add: bounded_cells_def cells_le_def)

lemma score_leaf:
  assumes "fit (2 ^ 21) b" "x \<in> set (leaves b)"
  shows "score (fst x) = Inr (real_of_int (score_value (fst x)))"
proof -
  from fit_leaves [OF assms(1) _ assms(2)] have f: "fit (2 ^ 24) (fst x)" by simp
  then have "wf4 (fst x)" "tiles (fst x)" "bounded_cells (fst x)"
    by (simp_all add: fit_def bounded_cells_le)
  then show ?thesis
    using score4 [of "fst x"] by (simp add: tiles_perceived tiles_positive)
qed

lemma next_move_sorted:
  assumes "check_pivots b = Inr None" "possible_boards b = Inr ls"
    "scored_boards ls = Inr scored" "scored \<noteq> []"
  shows "next_move b = Inr (snd (hd (sort_key (\<lambda>x. - fst x) scored)))"
proof -
  have "sort_key (\<lambda>x. - fst x) scored \<noteq> []"
    using assms(4) by (metis length_0_conv length_sort)
  then show ?thesis
    by (simp add: next_move_def assms(1-3) on_ok_def hd_conv_nth)
qed

lemma next_move_search:
  assumes "fit (2 ^ 21) b" "check_pivots b = Inr None"
  shows "\<exists>k<27. next_move b = Inr (Some (snd (leaves b ! k)))
     \<and> (\<forall>j<27. score_value (fst (leaves b ! j)) \<le> score_value (fst (leaves b ! k)))
     \<and> (\<forall>j<k. score_value (fst (leaves b ! j)) < score_value (fst (leaves b ! k)))"
proof -
  define ls where "ls = map (\<lambda>(x, l). (x, Some l)) (leaves b)"
  define scored where "scored = map (\<lambda>bm. (real_of_int (score_value (fst bm)), snd bm)) ls"
  define key where "key = (\<lambda>x :: real \<times> move option. - fst x)"
  from assms(1) have w: "wf4 b" by (simp add: fit_def)
  have pb: "possible_boards b = Inr ls"
    unfolding ls_def by (rule possible_boards4 [OF w])
  have "score (fst bm) = Inr (real_of_int (score_value (fst bm)))" if "bm \<in> set ls" for bm
  proof -
    from that obtain x where "x \<in> set (leaves b)" "fst bm = fst x"
      unfolding ls_def by auto
    with score_leaf [OF assms(1)] show ?thesis by simp
  qed
  then have sb: "scored_boards ls = Inr scored"
    unfolding scored_def by (rule scored_boards4)
  have len: "length scored = 27"
    by (simp add: scored_def ls_def length_leaves)
  then have ne: "scored \<noteq> []" by auto
  have nm: "next_move b = Inr (snd (hd (sort_key key scored)))"
    unfolding key_def by (rule next_move_sorted [OF assms(2) pb sb ne])
  from sort_key_first_min [OF ne, of key]
  have "\<exists>k<27. hd (sort_key key scored) = scored ! k
           \<and> (\<forall>j<27. key (scored ! k) \<le> key (scored ! j))
           \<and> (\<forall>j<k. key (scored ! k) < key (scored ! j))"
    unfolding len .
  then obtain k where k: "k < 27" "hd (sort_key key scored) = scored ! k"
    and k3: "\<And>j. j < 27 \<Longrightarrow> key (scored ! k) \<le> key (scored ! j)"
    and k4: "\<And>j. j < k \<Longrightarrow> key (scored ! k) < key (scored ! j)"
    by blast
  have nth: "scored ! j = (real_of_int (score_value (fst (leaves b ! j))), Some (snd (leaves b ! j)))"
    if "j < 27" for j
    using that by (simp add: scored_def ls_def length_leaves case_prod_beta)
  have r1: "next_move b = Inr (Some (snd (leaves b ! k)))"
    unfolding nm k(2) nth [OF k(1)] by simp
  have r2: "score_value (fst (leaves b ! j)) \<le> score_value (fst (leaves b ! k))" if "j < 27" for j
    using k3 [OF that] unfolding key_def nth [OF that] nth [OF k(1)] by simp
  have r3: "score_value (fst (leaves b ! j)) < score_value (fst (leaves b ! k))" if "j < k" for j
  proof -
    from that k(1) have j: "j < 27" by simp
    show ?thesis
      using k4 [OF that] unfolding key_def nth [OF j] nth [OF k(1)] by simp
  qed
  from k(1) r1 r2 r3 show ?thesis by blast
qed

lemma ones_fit: "fit (2 ^ 21) ones_board"
  by (simp add: fit_def wf4_def tiles_def cells_le_def ones_board_def)

lemma ones_pivots: "check_pivots ones_board = Inr None"
  by code_simp

lemma ones_best:
  "list_all (\<lambda>x. score_value (fst x) \<le> score_value (fst (leaves ones_board ! 0))) (leaves ones_board)"
  by code_simp




lemma first_label: "snd (leaves b ! 0) = Down"
  by (simp add: leaves_def children_def)

lemma first_leaf_wins:
  assumes "fit (2 ^ 21) b" "check_pivots b = Inr None"
    "list_all (\<lambda>x. score_value (fst x) \<le> score_value (fst (leaves b ! 0))) (leaves b)"
  shows "next_move b = Inr (Some Down)"
proof -
  from next_move_search [OF assms(1,2)] obtain k where k: "k < 27"
    "next_move b = Inr (Some (snd (leaves b ! k)))"
    and lt: "\<And>j. j < k \<Longrightarrow> score_value (fst (leaves b ! j)) < score_value (fst (leaves b ! k))"
    by blast
  from assms(3) k(1) have "score_value (fst (leaves b ! k)) \<le> score_value (fst (leaves b ! 0))"
    by (simp add: list_all_length length_leaves)
  with lt [of 0] have "k = 0" by force
  with k(2) show ?thesis by (simp add: first_label)
qed

lemma ones_next_move: "next_move ones_board = Inr (Some Down)"
  by (rule first_leaf_wins [OF ones_fit ones_pivots ones_best])




section \<open>The orchestrator\<close>

text \<open>
  When no move changes the board, every round of the loop of \<^verbatim>\<open>next_board\<close> ends
  where it began, with another move label.
\<close>

lemma rotate_stuck:
  assumes "left b = Inr b" "right b = Inr b" "down b = Inr b"
  shows "rotate b m b = None"
proof -
  have "\<not> (b' = b \<and> u = b)" if "rotate b' m' u = Some y" for b' m' u y
  proof (rule rotate.raw_induct [where P = "\<lambda>b' m' u y. \<not> (b' = b \<and> u = b)", OF _ that])
    fix rotate' :: "board \<Rightarrow> move option \<Rightarrow> board \<Rightarrow> (error + board \<times> move option) option"
    fix board move upcoming_board r
    assume ih: "\<And>b' m' u y. rotate' b' m' u = Some y \<Longrightarrow> \<not> (b' = b \<and> u = b)"
    assume body: "(if board = upcoming_board
      then if move = Some Down
           then case left board of Inl e \<Rightarrow> Some (Inl e)
                | Inr b \<Rightarrow> rotate' board (Some Left) b
           else if move = Some Left
                then case right board of Inl e \<Rightarrow> Some (Inl e)
                     | Inr b \<Rightarrow> rotate' board (Some Right) b
                else case down board of Inl e \<Rightarrow> Some (Inl e)
                     | Inr b \<Rightarrow> rotate' board (Some Down) b
      else Some (Inr (upcoming_board, move))) = Some r"
    show "\<not> (board = b \<and> upcoming_board = b)"
    proof
      assume e: "board = b \<and> upcoming_board = b"
      with body assms obtain m2 where "rotate' b m2 b = Some r"
        by (auto split: if_splits)
      with ih show False by blast
    qed
  qed
  then have "rotate b m b \<noteq> Some y" for y by blast
  then show ?thesis by (cases "rotate b m b") auto
qed

lemma ones_fixed:
  "left ones_board = Inr ones_board" "right ones_board = Inr ones_board"
  "down ones_board = Inr ones_board"
  by code_simp+

text \<open>
  Claim C1.  On a board that no move changes, \<^verbatim>\<open>next_board\<close> should return the last
  move tried and the board unchanged.  On the empty board \<^verbatim>\<open>next_move\<close> returns down,
  \<^verbatim>\<open>down\<close>, \<^verbatim>\<open>left\<close> and \<^verbatim>\<open>right\<close> all return the board itself, and the loop
  \<^verbatim>\<open>while board == upcoming_board\<close> of lines 269-278 goes round down, left, right
  for ever: \<^verbatim>\<open>next_board\<close> does not return.
\<close>

theorem next_board_never_returns:
  "left ones_board = Inr ones_board \<and> right ones_board = Inr ones_board
   \<and> down ones_board = Inr ones_board
   \<and> next_move ones_board = Inr (Some Down)
   \<and> next_board ones_board = None"
proof -
  have "rotate ones_board (Some Down) ones_board = None"
    by (rule rotate_stuck) (rule ones_fixed)+
  then have "next_board ones_board = None"
    by (simp add: next_board_def ones_next_move first_board_def ones_fixed)
  with ones_fixed ones_next_move show ?thesis by simp
qed

section \<open>Malformed boards\<close>

lemma find_longest_path_ragged:
  "find_longest_path [[2, 2], [1, 1, 1, 1], [1, 1, 1]] = Inr [1, 1, 1, 1, 1, 1, 1]"
  by code_simp

lemma score_ragged: "score [[2, 2], [1, 1, 1, 1], [1, 1, 1]] = Inr 20"
proof -
  have t: "tile 1" "tile 2" by code_simp+
  have i: "ilog2 1 = 0" "ilog2 2 = 1" by code_simp+
  have "for_loop [1, 1, 1, 1, 1, 1, 1] (add_pow 4) (real_of_int 0) = Inr (real_of_int 7)"
    using add_pow_loop [of "[1, 1, 1, 1, 1, 1, 1]" 4 0] t by (simp add: i)
  then have l1: "for_loop [1, 1, 1, 1, 1, 1, 1] (add_pow 4) 0 = Inr 7" by simp
  have "for_loop [2, 2, 1, 1, 1, 1, 1, 1, 1] (add_pow 3) (real_of_int 7) = Inr (real_of_int 20)"
    using add_pow_loop [of "[2, 2, 1, 1, 1, 1, 1, 1, 1]" 3 7] t by (simp add: i)
  then have l2: "for_loop (concat [[2, 2], [1, 1, 1, 1], [1, 1, 1]]) (add_pow 3) 7 = Inr 20"
    by simp
  show ?thesis
    by (simp only: score_def find_longest_path_ragged sum.case l1 for_loop_concat l2)
qed

text \<open>
  Claim C3.  Every transform and the scorer should reject a malformed board with an
  invalid-input error before doing any work.  Only \<^verbatim>\<open>down\<close> checks its argument: on the
  ragged board \<open>[[2, 2], [1, 1, 1, 1], [1, 1, 1]]\<close> it raises ValueError, while
  \<^verbatim>\<open>left\<close>, \<^verbatim>\<open>right\<close> and \<^verbatim>\<open>score\<close> run to the end and return a result.
\<close>

theorem malformed_board_only_down_rejects:
  "down [[2, 2], [1, 1, 1, 1], [1, 1, 1]] = Inl ValueError
   \<and> left [[2, 2], [1, 1, 1, 1], [1, 1, 1]] = Inr [[4, 1], [1, 1, 1, 1], [1, 1, 1]]
   \<and> right [[2, 2], [1, 1, 1, 1], [1, 1, 1]] = Inr [[1, 4], [1, 1, 1, 1], [1, 1, 1]]
   \<and> score [[2, 2], [1, 1, 1, 1], [1, 1, 1]] = Inr 20"
proof -
  have "down [[2, 2], [1, 1, 1, 1], [1, 1, 1]] = Inl ValueError"
    by code_simp
  moreover have "left [[2, 2], [1, 1, 1, 1], [1, 1, 1]] = Inr [[4, 1], [1, 1, 1, 1], [1, 1, 1]]"
    by code_simp
  moreover have "right [[2, 2], [1, 1, 1, 1], [1, 1, 1]] = Inr [[1, 4], [1, 1, 1, 1], [1, 1, 1]]"
    by code_simp
  moreover have "score [[2, 2], [1, 1, 1, 1], [1, 1, 1]] = Inr 20"
    by (rule score_ragged)
  ultimately show ?thesis by simp
qed

end
